theory Spec2Isabelle
  imports Main "HOL-Library.FSet" "HOL-Library.List_Lexorder" "HOL-Library.Product_Lexorder"
begin

section \<open>Strings\<close>

text \<open>
  A Python \<^verbatim>\<open>str\<close> is a sequence of Unicode code points. The plugin handles code points
  far beyond one byte (it names U+1361 in a pattern), so a string is modelled as the list of
  its code points. With \<^theory_text>\<open>HOL-Library.List_Lexorder\<close> the order on such
  lists is the lexicographic order by code point, which is the order Python's
  \<^verbatim>\<open>sorted\<close> uses on strings.
\<close>

type_synonym str = "nat list"

definition ustr :: "string \<Rightarrow> str" where
  "ustr s = map of_char s"

section \<open>The genre hierarchy (rym\_genre\_hierarchy.py)\<close>

subsection \<open>The taxonomy document as the parser sees it\<close>

text \<open>
  \<^verbatim>\<open>_parse_tree\<close> walks a decoded JSON value and tells apart exactly these cases.

  A node is either a dict, or anything else (\<open>NonDict\<close>: \<^verbatim>\<open>node['name']\<close> raises
  TypeError; the keys of a dict or the characters of a string that is iterated in place of a
  list are such nodes).

  The \<^verbatim>\<open>name\<close> of a dict is missing (KeyError), unhashable (a list or a dict:
  \<^verbatim>\<open>self.all_genres.add\<close> raises TypeError) or a hashable value, the genre name.

  The \<^verbatim>\<open>children\<close> of a dict are skipped when the key is missing or its value
  is falsy (\<open>None\<close> below); a truthy value is either not iterable (the \<^verbatim>\<open>for\<close>
  raises TypeError) or a sequence of nodes.

  The type of genre names is a parameter: every JSON string is one, and so is any other
  hashable value the document holds in a \<^verbatim>\<open>name\<close> field.
\<close>

datatype error = KeyError | TypeError | OSError | JSONDecodeError

datatype 'g name_field = NoName | Unhashable | Name 'g

datatype 'g node = NonDict | Dict "'g name_field" "'g node_seq option"
and 'g node_seq = NotIterable | Nodes "'g node list"

text \<open>
  What \<^verbatim>\<open>load_hierarchy\<close> finds at \<^verbatim>\<open>genre_tree_file\<close>: no file; a file that
  \<^verbatim>\<open>open\<close> or \<^verbatim>\<open>json.load\<close> rejects; a document without the key
  \<^verbatim>\<open>genreHierarchy\<close> (or one that is not a dict at all); or a document with a value
  under that key.
\<close>

datatype 'g tree_file =
    FileNotFound
  | Unreadable error
  | NoHierarchyKey error
  | Document "'g node_seq"

subsection \<open>The index\<close>

text \<open>
  The three fields of \<^verbatim>\<open>RYMGenreHierarchy\<close> that hold the index. Python sets are
  finite, so they are finite sets here; an ancestor path is a tuple of names.
\<close>

record 'g hierarchy =
  genre_to_parents :: "'g \<rightharpoonup> 'g list fset"
  all_genres :: "'g fset"
  excluded_genres :: "'g fset"

text \<open>
  The body of the \<^verbatim>\<open>for node in nodes\<close> loop up to the recursive call: register the
  name, make sure it has an entry, and add every non-empty prefix of the parent path
  (\<^verbatim>\<open>parent_path[:i+1]\<close> for \<^verbatim>\<open>i in range(len(parent_path))\<close>).
\<close>

definition ancestor_paths :: "'g list \<Rightarrow> 'g list list" where
  "ancestor_paths parent_path = map (\<lambda>i. take (i + 1) parent_path) [0..<length parent_path]"

definition register_genre :: "'g \<Rightarrow> 'g list \<Rightarrow> 'g hierarchy \<Rightarrow> 'g hierarchy" where
  "register_genre genre_name parent_path h =
     (let h1 = h\<lparr>all_genres := finsert genre_name (all_genres h)\<rparr>;
          old = (case genre_to_parents h1 genre_name of None \<Rightarrow> {||} | Some ps \<Rightarrow> ps)
      in h1\<lparr>genre_to_parents :=
              (genre_to_parents h1)(genre_name \<mapsto> old |\<union>| fset_of_list (ancestor_paths parent_path))\<rparr>)"

text \<open>
  \<^verbatim>\<open>_parse_tree\<close> mutates the index while it walks, so a Python exception leaves
  behind whatever was registered before it. The model therefore returns the index in every
  case, together with the exception if one was raised.
\<close>

fun parse_tree :: "'g node_seq \<Rightarrow> 'g list \<Rightarrow> 'g hierarchy \<Rightarrow> error option \<times> 'g hierarchy"
and parse_nodes :: "'g node list \<Rightarrow> 'g list \<Rightarrow> 'g hierarchy \<Rightarrow> error option \<times> 'g hierarchy"
and parse_node :: "'g node \<Rightarrow> 'g list \<Rightarrow> 'g hierarchy \<Rightarrow> error option \<times> 'g hierarchy"
where
  "parse_tree NotIterable parent_path h = (Some TypeError, h)"
| "parse_tree (Nodes ns) parent_path h = parse_nodes ns parent_path h"
| "parse_nodes [] parent_path h = (None, h)"
| "parse_nodes (n # ns) parent_path h =
     (case parse_node n parent_path h of
        (Some e, h') \<Rightarrow> (Some e, h')
      | (None, h') \<Rightarrow> parse_nodes ns parent_path h')"
| "parse_node NonDict parent_path h = (Some TypeError, h)"
| "parse_node (Dict NoName children) parent_path h = (Some KeyError, h)"
| "parse_node (Dict Unhashable children) parent_path h = (Some TypeError, h)"
| "parse_node (Dict (Name genre_name) children) parent_path h =
     (let current_path = parent_path @ [genre_name];
          h' = register_genre genre_name parent_path h
      in case children of
           None \<Rightarrow> (None, h')
         | Some cs \<Rightarrow> parse_tree cs current_path h')"

text \<open>
  \<^verbatim>\<open>load_hierarchy\<close>: a missing file returns at once; everything else runs inside
  \<^verbatim>\<open>try ... except Exception\<close>, whose handler only prints. The result is a sum so
  that "does not raise" is a statement about the model: no branch is \<open>Inl\<close>.
\<close>

definition load_hierarchy :: "'g tree_file \<Rightarrow> 'g hierarchy \<Rightarrow> error + 'g hierarchy" where
  "load_hierarchy f h =
     (case f of
        FileNotFound \<Rightarrow> Inr h
      | Unreadable e \<Rightarrow> Inr h
      | NoHierarchyKey e \<Rightarrow> Inr h
      | Document v \<Rightarrow> (case parse_tree v [] h of (_, h') \<Rightarrow> Inr h'))"

text \<open>
  The constructor: empty index, the exclusion set as \<^verbatim>\<open>load_excluded_genres\<close> left
  it, then \<^verbatim>\<open>load_hierarchy\<close>.
\<close>

definition empty_index :: "'g fset \<Rightarrow> 'g hierarchy" where
  "empty_index excluded =
     \<lparr>genre_to_parents = Map.empty, all_genres = {||}, excluded_genres = excluded\<rparr>"

definition new_hierarchy :: "'g fset \<Rightarrow> 'g tree_file \<Rightarrow> error + 'g hierarchy" where
  "new_hierarchy excluded f = load_hierarchy f (empty_index excluded)"

subsection \<open>Queries\<close>

definition get_all_parent_genres :: "'g hierarchy \<Rightarrow> 'g \<Rightarrow> 'g fset" where
  "get_all_parent_genres h genre_name =
     (case genre_to_parents h genre_name of
        None \<Rightarrow> {||}
      | Some paths \<Rightarrow> ffUnion (fset_of_list |`| paths))"

definition expand_step :: "'g hierarchy \<Rightarrow> 'g \<Rightarrow> 'g fset \<Rightarrow> 'g fset" where
  "expand_step h genre expanded =
     (if genre |\<in>| all_genres h then
        (let e1 = (if genre |\<notin>| excluded_genres h then finsert genre expanded else expanded);
             parents = get_all_parent_genres h genre
         in e1 |\<union>| ffilter (\<lambda>parent. parent |\<notin>| excluded_genres h) parents)
      else if genre |\<notin>| excluded_genres h then finsert genre expanded
      else expanded)"

definition expand_genres_hierarchically :: "'g hierarchy \<Rightarrow> 'g list \<Rightarrow> 'g fset" where
  "expand_genres_hierarchically h genres = fold (expand_step h) genres {||}"

definition is_valid_genre :: "'g hierarchy \<Rightarrow> 'g \<Rightarrow> bool" where
  "is_valid_genre h genre_name \<longleftrightarrow> genre_name |\<in>| all_genres h"

definition is_excluded_genre :: "'g hierarchy \<Rightarrow> 'g \<Rightarrow> bool" where
  "is_excluded_genre h genre_name \<longleftrightarrow> genre_name |\<in>| excluded_genres h"

section \<open>Parent genres of a release (rym\_genres.py)\<close>

text \<open>
  The configuration values the modelled functions read, and the plugin's
  \<^verbatim>\<open>genre_hierarchy\<close> field after \<^verbatim>\<open>_load_genre_hierarchy\<close>: \<open>None\<close> when
  the class could not be imported or its constructor raised.
\<close>

record config =
  similarity_threshold :: rat
  flexible_artist_matching :: bool
  title_match_threshold :: rat
  use_hierarchy :: bool
  max_groupings :: int

text \<open>
  The loop of \<^verbatim>\<open>_get_parent_genres\<close> keeps two sets: the parents found so far and the
  input genres that have none.
\<close>

definition parents_step :: "'g hierarchy \<Rightarrow> 'g \<Rightarrow> 'g fset \<times> 'g fset \<Rightarrow> 'g fset \<times> 'g fset" where
  "parents_step h genre acc =
     (case acc of (all_parents, top_level_genres) \<Rightarrow>
        (let parents = get_all_parent_genres h genre
         in if parents \<noteq> {||} then (all_parents |\<union>| parents, top_level_genres)
            else (all_parents, finsert genre top_level_genres)))"

definition grouping_set :: "'g hierarchy \<Rightarrow> 'g list \<Rightarrow> 'g fset" where
  "grouping_set h genres =
     (case fold (parents_step h) genres ({||}, {||}) of (all_parents, top_level_genres) \<Rightarrow>
        (let all_parents1 = all_parents |-| fset_of_list genres;
             all_parents2 = all_parents1 |\<union>| top_level_genres
         in all_parents2 |-| excluded_genres h))"

text \<open>
  With names that can be compared (strings always can) nothing inside the
  \<^verbatim>\<open>try\<close> block raises, so its handler has no branch here.
\<close>

definition get_parent_genres ::
  "config \<Rightarrow> ('g::linorder) hierarchy option \<Rightarrow> 'g list \<Rightarrow> 'g list" where
  "get_parent_genres cfg genre_hierarchy genres =
     (if \<not> use_hierarchy cfg \<or> genres = [] then []
      else case genre_hierarchy of
        None \<Rightarrow> []
      | Some h \<Rightarrow>
         (let parent_list = sorted_list_of_fset (grouping_set h genres)
          in if max_groupings cfg > 0 then take (nat (max_groupings cfg)) parent_list
             else parent_list))"

section \<open>The Unicode library the matcher calls\<close>

text \<open>
  \<^verbatim>\<open>rym_genres.py\<close> calls \<^verbatim>\<open>unicodedata.normalize\<close> (forms NFKC and NFD),
  \<^verbatim>\<open>str.lower\<close>, \<^verbatim>\<open>str.strip\<close> and the classes \<^verbatim>\<open>\s\<close>, \<^verbatim>\<open>\w\<close>,
  \<^verbatim>\<open>\d\<close> and \<^verbatim>\<open>\b\<close> of \<^verbatim>\<open>re\<close>. All of them read the Unicode character
  database, a table that is not part of the repository. The table is a parameter of the
  model: two normalisations and the lower-casing as functions on strings, and the three
  character properties CPython consults (\<^verbatim>\<open>Py_UNICODE_ISSPACE\<close> for \<^verbatim>\<open>strip\<close> and
  \<^verbatim>\<open>\s\<close>, \<^verbatim>\<open>Py_UNICODE_ISALNUM\<close> for \<^verbatim>\<open>\w\<close>, \<^verbatim>\<open>Py_UNICODE_ISDECIMAL\<close>
  for \<^verbatim>\<open>\d\<close>). A theorem stated for every \<open>U\<close> holds for CPython's table in
  particular.
\<close>

record unicode =
  nfkc :: "str \<Rightarrow> str"
  nfd :: "str \<Rightarrow> str"
  lower :: "str \<Rightarrow> str"
  isspace :: "nat \<Rightarrow> bool"
  isalnum :: "nat \<Rightarrow> bool"
  isdecimal :: "nat \<Rightarrow> bool"

text \<open>
  The table restricted to ASCII, for evaluating the functions on concrete strings: on strings
  of code points below 128 both normalisations are the identity, \<^verbatim>\<open>lower\<close> maps
  \<^verbatim>\<open>A-Z\<close> to \<^verbatim>\<open>a-z\<close>, the whitespace characters are 9 to 13, 28 to 31 and 32, and
  the alphanumeric ones are the digits and the letters. Every concrete input below is ASCII.
\<close>

definition ascii_lower :: "nat \<Rightarrow> nat" where
  "ascii_lower c = (if 65 \<le> c \<and> c \<le> 90 then c + 32 else c)"

definition ascii_unicode :: unicode where
  "ascii_unicode =
     \<lparr>nfkc = (\<lambda>s. s), nfd = (\<lambda>s. s), lower = map ascii_lower,
      isspace = (\<lambda>c. c \<in> {9, 10, 11, 12, 13, 28, 29, 30, 31, 32}),
      isalnum = (\<lambda>c. (48 \<le> c \<and> c \<le> 57) \<or> (65 \<le> c \<and> c \<le> 90) \<or> (97 \<le> c \<and> c \<le> 122)),
      isdecimal = (\<lambda>c. 48 \<le> c \<and> c \<le> 57)\<rparr>"

text \<open>\<^verbatim>\<open>s.strip()\<close>: drop the whitespace at both ends.\<close>

definition strip :: "unicode \<Rightarrow> str \<Rightarrow> str" where
  "strip U s = rev (dropWhile (isspace U) (rev (dropWhile (isspace U) s)))"

section \<open>The regular expressions of the matcher\<close>

text \<open>
  Every pattern in \<^verbatim>\<open>rym_genres.py\<close> is a sequence of items, each a character class
  with a quantifier (exactly one, greedy \<^verbatim>\<open>*\<close>, greedy \<^verbatim>\<open>+\<close>, lazy \<^verbatim>\<open>*?\<close>) or the
  assertion \<^verbatim>\<open>\b\<close>. \<open>re_match\<close> is the backtracking matcher of \<^verbatim>\<open>re\<close> on such
  patterns: it returns the length of the first match found at the start of \<open>s\<close> in the
  order in which \<^verbatim>\<open>re\<close> tries the alternatives (a greedy item takes a character first and
  gives it back only if the rest fails; a lazy item tries the rest first). \<open>prev\<close> is the
  character before \<open>s\<close>, which \<^verbatim>\<open>\b\<close> needs.
\<close>

datatype quantifier = One | Star | Plus | LazyStar

datatype item = Chars "nat \<Rightarrow> bool" quantifier | WordBoundary

definition isword :: "unicode \<Rightarrow> nat \<Rightarrow> bool" where
  "isword U c \<longleftrightarrow> isalnum U c \<or> c = 95"

definition at_boundary :: "unicode \<Rightarrow> nat option \<Rightarrow> str \<Rightarrow> bool" where
  "at_boundary U prev s \<longleftrightarrow>
     (case prev of None \<Rightarrow> False | Some p \<Rightarrow> isword U p)
       \<noteq> (case s of [] \<Rightarrow> False | x # _ \<Rightarrow> isword U x)"

fun re_match :: "unicode \<Rightarrow> item list \<Rightarrow> nat option \<Rightarrow> str \<Rightarrow> nat option" where
  "re_match U [] prev s = Some 0"
| "re_match U (WordBoundary # items) prev s =
     (if at_boundary U prev s then re_match U items prev s else None)"
| "re_match U (Chars c One # items) prev [] = None"
| "re_match U (Chars c One # items) prev (x # xs) =
     (if c x then map_option Suc (re_match U items (Some x) xs) else None)"
| "re_match U (Chars c Plus # items) prev [] = None"
| "re_match U (Chars c Plus # items) prev (x # xs) =
     (if c x then map_option Suc (re_match U (Chars c Star # items) (Some x) xs) else None)"
| "re_match U (Chars c Star # items) prev [] = re_match U items prev []"
| "re_match U (Chars c Star # items) prev (x # xs) =
     (if c x then
        (case re_match U (Chars c Star # items) (Some x) xs of
           Some n \<Rightarrow> Some (Suc n)
         | None \<Rightarrow> re_match U items prev (x # xs))
      else re_match U items prev (x # xs))"
| "re_match U (Chars c LazyStar # items) prev [] = re_match U items prev []"
| "re_match U (Chars c LazyStar # items) prev (x # xs) =
     (case re_match U items prev (x # xs) of
        Some n \<Rightarrow> Some n
      | None \<Rightarrow>
         (if c x then map_option Suc (re_match U (Chars c LazyStar # items) (Some x) xs)
          else None))"

text \<open>
  \<^verbatim>\<open>re.search\<close>: the leftmost position with a match, as (start, length).
\<close>

fun re_search :: "unicode \<Rightarrow> item list \<Rightarrow> nat option \<Rightarrow> str \<Rightarrow> (nat \<times> nat) option" where
  "re_search U pat prev s =
     (case re_match U pat prev s of
        Some n \<Rightarrow> Some (0, n)
      | None \<Rightarrow>
         (case s of
            [] \<Rightarrow> None
          | x # xs \<Rightarrow> map_option (\<lambda>(i, n). (Suc i, n)) (re_search U pat (Some x) xs)))"

text \<open>
  \<^verbatim>\<open>re.sub\<close> with a constant replacement: replace the leftmost match, go on behind it.
  Every pattern of the plugin consumes at least one character (lemma \<open>patterns_consume\<close>
  below), so the treatment of empty matches by \<^verbatim>\<open>re.sub\<close> never comes into play; here
  an empty match counts as none.
\<close>

function re_sub_from :: "unicode \<Rightarrow> item list \<Rightarrow> str \<Rightarrow> nat option \<Rightarrow> str \<Rightarrow> str" where
  "re_sub_from U pat repl prev s =
     (case s of
        [] \<Rightarrow> []
      | x # xs \<Rightarrow>
         (case re_match U pat prev s of
            Some (Suc n) \<Rightarrow> repl @ re_sub_from U pat repl (Some (s ! n)) (drop (Suc n) s)
          | _ \<Rightarrow> x # re_sub_from U pat repl (Some x) xs))"
  by pat_completeness auto
termination
  by (relation "measure (\<lambda>(U, pat, repl, prev, s). length s)") auto

definition re_sub :: "unicode \<Rightarrow> item list \<Rightarrow> str \<Rightarrow> str \<Rightarrow> str" where
  "re_sub U pat repl s = re_sub_from U pat repl None s"

text \<open>
  The patterns, in the order of the source. Code points: \<^verbatim>\<open>[\<close> 91, \<^verbatim>\<open>]\<close> 93,
  \<^verbatim>\<open>(\<close> 40, \<^verbatim>\<open>)\<close> 41, \<^verbatim>\<open>:\<close> 58, newline 10 (the one character \<^verbatim>\<open>.\<close> does not
  match), the Ethiopic wordspace-colon U+1361 4961.

  \<^item> \<open>re_bracket_segment\<close>: \<^verbatim>\<open>\s*\[.*?\]\s*\<close>, \<open>re_paren_segment\<close>: \<^verbatim>\<open>\s*\(.*?\)\s*\<close>
    (artist names);
  \<^item> \<open>re_bracket_group\<close>: \<^verbatim>\<open>\[(.*?)\]\<close>, \<open>re_paren_group\<close>: \<^verbatim>\<open>\((.*?)\)\<close>;
  \<^item> \<open>re_paren_segment_album\<close>: \<^verbatim>\<open>\s*\([^)]*\)\s*\<close>,
    \<open>re_bracket_segment_album\<close>: \<^verbatim>\<open>\s*\[[^\]]*\]\s*\<close>;
  \<^item> \<open>re_ethiopic_colon\<close>: the single character U+1361; \<open>re_colon_spacing\<close>:
    \<^verbatim>\<open>\s*:\s*\<close>; \<open>re_whitespace_run\<close>: \<^verbatim>\<open>\s+\<close>;
  \<^item> \<open>re_volume_number\<close>: \<^verbatim>\<open>\b\d+\s*:\s*\<close>; \<open>re_punctuation\<close>: \<^verbatim>\<open>[^\w\s]\<close>.
\<close>

definition lit :: "nat \<Rightarrow> item" where
  "lit ch = Chars (\<lambda>c. c = ch) One"

definition ws_star :: "unicode \<Rightarrow> item" where
  "ws_star U = Chars (isspace U) Star"

definition re_bracket_segment :: "unicode \<Rightarrow> item list" where
  "re_bracket_segment U = [ws_star U, lit 91, Chars (\<lambda>c. c \<noteq> 10) LazyStar, lit 93, ws_star U]"

definition re_paren_segment :: "unicode \<Rightarrow> item list" where
  "re_paren_segment U = [ws_star U, lit 40, Chars (\<lambda>c. c \<noteq> 10) LazyStar, lit 41, ws_star U]"

definition re_bracket_group :: "item list" where
  "re_bracket_group = [lit 91, Chars (\<lambda>c. c \<noteq> 10) LazyStar, lit 93]"

definition re_paren_group :: "item list" where
  "re_paren_group = [lit 40, Chars (\<lambda>c. c \<noteq> 10) LazyStar, lit 41]"

definition re_paren_segment_album :: "unicode \<Rightarrow> item list" where
  "re_paren_segment_album U = [ws_star U, lit 40, Chars (\<lambda>c. c \<noteq> 41) Star, lit 41, ws_star U]"

definition re_bracket_segment_album :: "unicode \<Rightarrow> item list" where
  "re_bracket_segment_album U = [ws_star U, lit 91, Chars (\<lambda>c. c \<noteq> 93) Star, lit 93, ws_star U]"

definition re_ethiopic_colon :: "item list" where
  "re_ethiopic_colon = [lit 4961]"

definition re_colon_spacing :: "unicode \<Rightarrow> item list" where
  "re_colon_spacing U = [ws_star U, lit 58, ws_star U]"

definition re_whitespace_run :: "unicode \<Rightarrow> item list" where
  "re_whitespace_run U = [Chars (isspace U) Plus]"

definition re_volume_number :: "unicode \<Rightarrow> item list" where
  "re_volume_number U = [WordBoundary, Chars (isdecimal U) Plus, ws_star U, lit 58, ws_star U]"

definition re_punctuation :: "unicode \<Rightarrow> item list" where
  "re_punctuation U = [Chars (\<lambda>c. \<not> isword U c \<and> \<not> isspace U c) One]"

text \<open>
  \<^verbatim>\<open>re.search(p, s).group(1)\<close> for the two group patterns: the match without its first
  and last character.
\<close>

definition group1 :: "unicode \<Rightarrow> item list \<Rightarrow> str \<Rightarrow> str option" where
  "group1 U pat s =
     (case re_search U pat None s of
        None \<Rightarrow> None
      | Some (start, n) \<Rightarrow> Some (take (n - 2) (drop (Suc start) s)))"

section \<open>Name variations (\_get\_artist\_variations, \_get\_album\_variations)\<close>

text \<open>
  Both functions collect candidate strings in a list and then clean it. The steps that recur:

  \<^item> \<open>with_nfkc\<close>: append a string and, if it differs, its NFKC form;
  \<^item> \<open>cleaned_variants\<close>: a cleaned string is kept if it is non-empty and differs from the
    name (\<^verbatim>\<open>if cleaned and cleaned != artist_name\<close>);
  \<^item> \<open>alt_name_variants\<close>: the stripped content of the first bracket or parenthesis group,
    if there is one and it is non-empty;
  \<^item> \<open>nfd_variants\<close>: the NFD form if it differs from the name and from its NFKC form
    (\<^verbatim>\<open>unicodedata.normalize\<close> does not raise on a string, so the bare
    \<^verbatim>\<open>except\<close> around it has no branch here).
\<close>

definition with_nfkc :: "unicode \<Rightarrow> str \<Rightarrow> str list" where
  "with_nfkc U s = s # (if nfkc U s \<noteq> s then [nfkc U s] else [])"

definition cleaned_variants :: "unicode \<Rightarrow> str \<Rightarrow> str \<Rightarrow> str list" where
  "cleaned_variants U name cleaned =
     (if cleaned \<noteq> [] \<and> cleaned \<noteq> name then with_nfkc U cleaned else [])"

definition alt_name_variants :: "unicode \<Rightarrow> item list \<Rightarrow> str \<Rightarrow> str list" where
  "alt_name_variants U pat name =
     (case group1 U pat name of
        None \<Rightarrow> []
      | Some g \<Rightarrow> (let alt_name = strip U g in if alt_name \<noteq> [] then with_nfkc U alt_name else []))"

definition nfd_variants :: "unicode \<Rightarrow> str \<Rightarrow> str list" where
  "nfd_variants U name =
     (let nfd_normalized = nfd U name
      in if nfd_normalized \<noteq> name \<and> nfd_normalized \<noteq> nfkc U name then [nfd_normalized] else [])"

text \<open>
  The final loop of both functions: strip each variation and keep it if it is non-empty and
  was not seen before.
\<close>

definition dedup_step :: "unicode \<Rightarrow> str \<Rightarrow> str fset \<times> str list \<Rightarrow> str fset \<times> str list" where
  "dedup_step U var acc =
     (case acc of (seen, result) \<Rightarrow>
        (let var_clean = strip U var
         in if var_clean \<noteq> [] \<and> var_clean |\<notin>| seen
            then (finsert var_clean seen, result @ [var_clean])
            else (seen, result)))"

definition clean_variations :: "unicode \<Rightarrow> str list \<Rightarrow> str list" where
  "clean_variations U variations = snd (fold (dedup_step U) variations ({||}, []))"

definition artist_variations_raw :: "unicode \<Rightarrow> str \<Rightarrow> str list" where
  "artist_variations_raw U artist_name =
     [artist_name]
     @ (if nfkc U artist_name \<noteq> artist_name then [nfkc U artist_name] else [])
     @ cleaned_variants U artist_name (strip U (re_sub U (re_bracket_segment U) [] artist_name))
     @ cleaned_variants U artist_name (strip U (re_sub U (re_paren_segment U) [] artist_name))
     @ alt_name_variants U re_bracket_group artist_name
     @ alt_name_variants U re_paren_group artist_name
     @ nfd_variants U artist_name"

definition get_artist_variations :: "unicode \<Rightarrow> str \<Rightarrow> str list" where
  "get_artist_variations U artist_name = clean_variations U (artist_variations_raw U artist_name)"

definition normalized_punct :: "unicode \<Rightarrow> str \<Rightarrow> str" where
  "normalized_punct U album_title =
     strip U (re_sub U (re_whitespace_run U) (ustr '' '')
       (re_sub U (re_colon_spacing U) (ustr '': '')
         (re_sub U re_ethiopic_colon (ustr '':'') album_title)))"

definition minimal_punct :: "unicode \<Rightarrow> str \<Rightarrow> str" where
  "minimal_punct U album_title =
     strip U (re_sub U (re_whitespace_run U) (ustr '' '')
       (re_sub U (re_punctuation U) (ustr '' '') album_title))"

definition album_variations_raw :: "unicode \<Rightarrow> str \<Rightarrow> str list" where
  "album_variations_raw U album_title =
     [album_title]
     @ (if nfkc U album_title \<noteq> album_title then [nfkc U album_title] else [])
     @ cleaned_variants U album_title (strip U (re_sub U (re_paren_segment_album U) [] album_title))
     @ cleaned_variants U album_title (strip U (re_sub U (re_bracket_segment_album U) [] album_title))
     @ alt_name_variants U re_bracket_group album_title
     @ (if normalized_punct U album_title \<noteq> album_title
        then with_nfkc U (normalized_punct U album_title) else [])
     @ (let volume_removed = re_sub U (re_volume_number U) (ustr '': '') album_title
        in if volume_removed \<noteq> album_title then with_nfkc U volume_removed else [])
     @ cleaned_variants U album_title (minimal_punct U album_title)
     @ nfd_variants U album_title"

definition get_album_variations :: "unicode \<Rightarrow> str \<Rightarrow> str list" where
  "get_album_variations U album_title = clean_variations U (album_variations_raw U album_title)"

text \<open>
  What the cleaning loop is meant to compute, in the words of the specification: each value
  once, at the place of its first occurrence; and a string without whitespace at either
  end.
\<close>

fun first_occurrences :: "'a list \<Rightarrow> 'a list" where
  "first_occurrences [] = []"
| "first_occurrences (x # xs) = x # first_occurrences (removeAll x xs)"

definition stripped :: "unicode \<Rightarrow> str \<Rightarrow> bool" where
  "stripped U s \<longleftrightarrow> s \<noteq> [] \<and> \<not> isspace U (hd s) \<and> \<not> isspace U (last s)"

section \<open>The similarity ratio (difflib.SequenceMatcher)\<close>

text \<open>
  \<^verbatim>\<open>similarity\<close> calls \<^verbatim>\<open>SequenceMatcher(None, a, b).ratio()\<close> of the Python standard
  library. The model follows \<^verbatim>\<open>difflib.py\<close> function by function, for the arguments
  the plugin passes: no junk predicate (\<^verbatim>\<open>bjunk\<close> is empty, so the two loops of
  \<^verbatim>\<open>find_longest_match\<close> that extend a match over junk never run) and
  \<^verbatim>\<open>autojunk\<close> left on.

  \<open>chain_b\<close> is \<^verbatim>\<open>__chain_b\<close>: the map from each element of \<open>b\<close> to the ascending
  list of its positions, without the elements that occur more than \<^verbatim>\<open>n // 100 + 1\<close>
  times when \<open>b\<close> has 200 elements or more.
\<close>

definition chain_b :: "'a list \<Rightarrow> ('a \<rightharpoonup> nat list)" where
  "chain_b b =
     (let b2j = fold (\<lambda>(i, elt) m. m(elt \<mapsto> (case m elt of None \<Rightarrow> [] | Some indices \<Rightarrow> indices) @ [i]))
                  (enumerate 0 b) Map.empty;
          n = length b
      in if n \<ge> 200
         then (let ntest = n div 100 + 1
               in (\<lambda>elt. case b2j elt of
                            None \<Rightarrow> None
                          | Some idxs \<Rightarrow> if length idxs > ntest then None else Some idxs))
         else b2j)"

text \<open>
  \<^verbatim>\<open>find_longest_match\<close>. A block is the triple (start in \<open>a\<close>, start in \<open>b\<close>,
  size). \<open>j2lenget j2len j\<close> is \<^verbatim>\<open>j2len.get(j-1, 0)\<close>; for \<open>j = 0\<close> the key \<open>-1\<close> is
  never present. \<open>match_cell\<close> is the body of the inner loop, \<open>scan_row\<close> the inner loop
  with its \<^verbatim>\<open>continue\<close> and \<^verbatim>\<open>break\<close>, \<open>match_row\<close> the body of the outer loop.
  The starts \<^verbatim>\<open>i-k+1\<close> and \<^verbatim>\<open>j-k+1\<close> are written \<open>i + 1 - k\<close> and \<open>j + 1 - k\<close>:
  \<open>k\<close> never exceeds \<open>i + 1\<close> or \<open>j + 1\<close> (lemma \<open>match_cell_ok\<close> below), so the
  subtraction on natural numbers is the one on integers.
\<close>

definition j2lenget :: "(nat \<rightharpoonup> nat) \<Rightarrow> nat \<Rightarrow> nat" where
  "j2lenget j2len j = (if j = 0 then 0 else case j2len (j - 1) of None \<Rightarrow> 0 | Some k \<Rightarrow> k)"

type_synonym block = "nat \<times> nat \<times> nat"

definition match_cell :: "nat \<Rightarrow> (nat \<rightharpoonup> nat) \<Rightarrow> nat \<Rightarrow> (nat \<rightharpoonup> nat) \<times> block \<Rightarrow> (nat \<rightharpoonup> nat) \<times> block" where
  "match_cell i j2len j st =
     (case st of (newj2len, besti, bestj, bestsize) \<Rightarrow>
        (let k = j2lenget j2len j + 1
         in (newj2len(j \<mapsto> k),
             if k > bestsize then (i + 1 - k, j + 1 - k, k) else (besti, bestj, bestsize))))"

fun scan_row :: "nat \<Rightarrow> (nat \<rightharpoonup> nat) \<Rightarrow> nat \<Rightarrow> nat \<Rightarrow> nat list \<Rightarrow> (nat \<rightharpoonup> nat) \<times> block \<Rightarrow> (nat \<rightharpoonup> nat) \<times> block" where
  "scan_row i j2len blo bhi [] st = st"
| "scan_row i j2len blo bhi (j # js) st =
     (if j < blo then scan_row i j2len blo bhi js st
      else if j \<ge> bhi then st
      else scan_row i j2len blo bhi js (match_cell i j2len j st))"

definition match_row :: "'a list \<Rightarrow> ('a \<rightharpoonup> nat list) \<Rightarrow> nat \<Rightarrow> nat \<Rightarrow> nat \<Rightarrow> (nat \<rightharpoonup> nat) \<times> block \<Rightarrow> (nat \<rightharpoonup> nat) \<times> block" where
  "match_row a b2j blo bhi i st =
     (case st of (j2len, best) \<Rightarrow>
        scan_row i j2len blo bhi (case b2j (a ! i) of None \<Rightarrow> [] | Some js \<Rightarrow> js) (Map.empty, best))"

function extend_left :: "'a list \<Rightarrow> 'a list \<Rightarrow> nat \<Rightarrow> nat \<Rightarrow> block \<Rightarrow> block" where
  "extend_left a b alo blo (besti, bestj, bestsize) =
     (if besti > alo \<and> bestj > blo \<and> a ! (besti - 1) = b ! (bestj - 1)
      then extend_left a b alo blo (besti - 1, bestj - 1, bestsize + 1)
      else (besti, bestj, bestsize))"
  by pat_completeness auto
termination
  by (relation "measure (\<lambda>(a, b, alo, blo, besti, bestj, bestsize). besti)") auto

function extend_right :: "'a list \<Rightarrow> 'a list \<Rightarrow> nat \<Rightarrow> nat \<Rightarrow> block \<Rightarrow> block" where
  "extend_right a b ahi bhi (besti, bestj, bestsize) =
     (if besti + bestsize < ahi \<and> bestj + bestsize < bhi
         \<and> a ! (besti + bestsize) = b ! (bestj + bestsize)
      then extend_right a b ahi bhi (besti, bestj, bestsize + 1)
      else (besti, bestj, bestsize))"
  by pat_completeness auto
termination
  by (relation "measure (\<lambda>(a, b, ahi, bhi, besti, bestj, bestsize). ahi - (besti + bestsize))") auto

declare extend_left.simps [simp del]
declare extend_right.simps [simp del]

definition find_longest_match :: "'a list \<Rightarrow> 'a list \<Rightarrow> ('a \<rightharpoonup> nat list) \<Rightarrow> nat \<Rightarrow> nat \<Rightarrow> nat \<Rightarrow> nat \<Rightarrow> block" where
  "find_longest_match a b b2j alo ahi blo bhi =
     (let best = snd (fold (match_row a b2j blo bhi) [alo..<ahi] (Map.empty, alo, blo, 0))
      in extend_right a b ahi bhi (extend_left a b alo blo best))"

text \<open>
  \<^verbatim>\<open>get_matching_blocks\<close>. The Python list \<^verbatim>\<open>queue\<close> is used as a stack
  (\<^verbatim>\<open>append\<close>, \<^verbatim>\<open>pop\<close>); its last element is the head of the list here. The loop ends
  because every range pushed lies strictly inside the range popped, which needs the bounds
  on the result of \<open>find_longest_match\<close>; its termination is therefore proved further
  down, after those bounds.
\<close>

type_synonym range = "nat \<times> nat \<times> nat \<times> nat"

definition range_weight :: "range \<Rightarrow> nat" where
  "range_weight r = (case r of (alo, ahi, blo, bhi) \<Rightarrow> 2 * (ahi - alo) + 1)"

function blocks_loop :: "'a list \<Rightarrow> 'a list \<Rightarrow> ('a \<rightharpoonup> nat list) \<Rightarrow> range list \<Rightarrow> block list \<Rightarrow> block list" where
  "blocks_loop a b b2j [] matching_blocks = matching_blocks"
| "blocks_loop a b b2j ((alo, ahi, blo, bhi) # queue) matching_blocks =
     (case find_longest_match a b b2j alo ahi blo bhi of (i, j, k) \<Rightarrow>
        if k \<noteq> 0 then
          blocks_loop a b b2j
            ((if i + k < ahi \<and> j + k < bhi then [(i + k, ahi, j + k, bhi)] else [])
             @ (if alo < i \<and> blo < j then [(alo, i, blo, j)] else [])
             @ queue)
            (matching_blocks @ [(i, j, k)])
        else blocks_loop a b b2j queue matching_blocks)"
  by pat_completeness auto

text \<open>
  The blocks are sorted (tuples compare lexicographically), adjacent ones are merged, and the
  sentinel \<^verbatim>\<open>(la, lb, 0)\<close> is appended.
\<close>

definition collapse_step :: "block \<Rightarrow> block \<times> block list \<Rightarrow> block \<times> block list" where
  "collapse_step blk st =
     (case (blk, st) of ((i2, j2, k2), ((i1, j1, k1), non_adjacent)) \<Rightarrow>
        if i1 + k1 = i2 \<and> j1 + k1 = j2 then ((i1, j1, k1 + k2), non_adjacent)
        else ((i2, j2, k2), non_adjacent @ (if k1 \<noteq> 0 then [(i1, j1, k1)] else [])))"

definition get_matching_blocks :: "'a list \<Rightarrow> 'a list \<Rightarrow> block list" where
  "get_matching_blocks a b =
     (let la = length a; lb = length b;
          matching_blocks = sort (blocks_loop a b (chain_b b) [(0, la, 0, lb)] [])
      in case fold collapse_step matching_blocks ((0, 0, 0), []) of
           ((i1, j1, k1), non_adjacent) \<Rightarrow>
             non_adjacent @ (if k1 \<noteq> 0 then [(i1, j1, k1)] else []) @ [(la, lb, 0)])"

text \<open>
  \<^verbatim>\<open>ratio\<close>: \<^verbatim>\<open>2.0 * matches / length\<close>, and 1.0 for two empty sequences. Python
  computes the quotient as a double; the model keeps the exact rational number. Rounding a
  quotient to a double is monotone and exact at 0 and 1, so reflexivity and the bounds carry
  over to the doubles; the concrete scores below are compared only with values they are far
  from.
\<close>

definition ratio :: "'a list \<Rightarrow> 'a list \<Rightarrow> rat" where
  "ratio a b =
     (let matches = sum_list (map (\<lambda>(i, j, k). k) (get_matching_blocks a b));
          len = length a + length b
      in if len \<noteq> 0 then 2 * of_nat matches / of_nat len else 1)"

text \<open>\<^verbatim>\<open>similarity\<close> of \<^verbatim>\<open>rym_genres.py\<close>, lines 38 to 43.\<close>

definition similarity :: "unicode \<Rightarrow> str \<Rightarrow> str \<Rightarrow> rat" where
  "similarity U a b = ratio (nfkc U (lower U a)) (nfkc U (lower U b))"

text \<open>
  Invariants of the longest-match search, used for the bounds and for termination: the
  lengths stored for a row, and the best block so far.
\<close>

definition lens_ok :: "nat \<Rightarrow> nat \<Rightarrow> nat \<Rightarrow> (nat \<rightharpoonup> nat) \<Rightarrow> bool" where
  "lens_ok blo bhi n m \<longleftrightarrow>
     (\<forall>j v. m j = Some v \<longrightarrow> blo \<le> j \<and> j < bhi \<and> 0 < v \<and> v \<le> j + 1 - blo \<and> v \<le> n)"

definition best_ok :: "nat \<Rightarrow> nat \<Rightarrow> nat \<Rightarrow> nat \<Rightarrow> block \<Rightarrow> bool" where
  "best_ok alo blo bhi row best \<longleftrightarrow>
     (case best of (besti, bestj, bestsize) \<Rightarrow>
        alo \<le> besti \<and> blo \<le> bestj \<and> besti + bestsize \<le> row
        \<and> (if bestsize = 0 then besti = alo \<and> bestj = blo else bestj + bestsize \<le> bhi))"

text \<open>
  For the properties of \<open>ratio\<close>: the size of a block and the total size of a list of
  blocks; the lengths of the ranges waiting in the queue; the positions of an element in
  \<open>b\<close>, which is what \<open>chain_b\<close> stores for an element it keeps; the positions whose
  element \<open>chain_b\<close> keeps; the length of the run of such positions that ends at a
  position; and the invariant of the search when a sequence is compared with itself (the
  best block lies on the diagonal).
\<close>

definition block_size :: "block \<Rightarrow> nat" where
  "block_size blk = (case blk of (i, j, k) \<Rightarrow> k)"

definition total_size :: "block list \<Rightarrow> nat" where
  "total_size blocks = sum_list (map block_size blocks)"

definition a_span :: "range list \<Rightarrow> nat" where
  "a_span queue = sum_list (map (\<lambda>(alo, ahi, blo, bhi). ahi - alo) queue)"

definition b_span :: "range list \<Rightarrow> nat" where
  "b_span queue = sum_list (map (\<lambda>(alo, ahi, blo, bhi). bhi - blo) queue)"

definition positions :: "'a list \<Rightarrow> 'a \<Rightarrow> nat list" where
  "positions b x = map fst (filter (\<lambda>p. snd p = x) (enumerate 0 b))"

definition indexed :: "'a list \<Rightarrow> nat \<Rightarrow> bool" where
  "indexed b j \<longleftrightarrow> chain_b b (b ! j) \<noteq> None"

fun run :: "(nat \<Rightarrow> bool) \<Rightarrow> nat \<Rightarrow> nat" where
  "run P 0 = (if P 0 then 1 else 0)"
| "run P (Suc i) = (if P (Suc i) then run P i + 1 else 0)"

definition prev_run :: "(nat \<Rightarrow> bool) \<Rightarrow> nat \<Rightarrow> nat" where
  "prev_run P i = (if i = 0 then 0 else run P (i - 1))"

definition diag_inv :: "(nat \<Rightarrow> bool) \<Rightarrow> nat \<Rightarrow> (nat \<rightharpoonup> nat) \<times> block \<Rightarrow> bool" where
  "diag_inv P i st \<longleftrightarrow>
     (case st of (j2len, besti, bestj, bestsize) \<Rightarrow>
        (\<forall>j. j2lenget j2len j \<le> prev_run P j \<and> j2lenget j2len j \<le> prev_run P i)
        \<and> j2lenget j2len i = prev_run P i
        \<and> besti = bestj
        \<and> (\<forall>j' < i. run P j' \<le> bestsize))"

section \<open>Finding the release (\_find\_rym\_release)\<close>

text \<open>
  The catalog is a dict of dicts. The scan skips every value that is not a dict, and every
  release without an artist name or a title (a missing key reads as the empty string). The
  lists keep the iteration order of the dicts.
\<close>

record release =
  artistName :: str
  releaseTitle :: str
  genres :: "str list"
  secondaryGenres :: "str list"
  descriptors :: "str list"

datatype release_entry = NotARelease | ReleaseData release

datatype artist_entry = NotAnArtist | ArtistData "(str \<times> release_entry) list"

type_synonym catalog = "(str \<times> artist_entry) list"

text \<open>
  The two score loops (lines 429 to 440). The artist loop runs over the variations of the
  catalog's artist name only; the query artist enters lower-cased, as it is.
\<close>

definition best_artist_score :: "unicode \<Rightarrow> str \<Rightarrow> str \<Rightarrow> rat" where
  "best_artist_score U artist_lower rym_artist_raw =
     fold (\<lambda>rym_artist best. max best (similarity U artist_lower (lower U rym_artist)))
       (get_artist_variations U rym_artist_raw) 0"

definition best_title_score :: "unicode \<Rightarrow> str \<Rightarrow> str \<Rightarrow> rat" where
  "best_title_score U album_title rym_title_raw =
     fold (\<lambda>album_var best.
             fold (\<lambda>rym_title_var best'.
                     max best' (similarity U (lower U album_var) (lower U rym_title_var)))
               (get_album_variations U rym_title_raw) best)
       (get_album_variations U album_title) 0"

definition release_scores :: "unicode \<Rightarrow> str \<Rightarrow> str \<Rightarrow> release \<Rightarrow> rat \<times> rat" where
  "release_scores U artist album_title release_data =
     (best_artist_score U (lower U artist) (artistName release_data),
      best_title_score U album_title (releaseTitle release_data))"

definition combined_score :: "rat \<times> rat \<Rightarrow> rat" where
  "combined_score scores = (fst scores + snd scores) / 2"

text \<open>
  Lines 448 to 460: the primary and the flexible acceptance, on the one pair
  \<^verbatim>\<open>(best_match, best_score)\<close>.
\<close>

definition match_step :: "config \<Rightarrow> 'r \<Rightarrow> rat \<times> rat \<Rightarrow> 'r option \<times> rat \<Rightarrow> 'r option \<times> rat" where
  "match_step cfg release_data scores st =
     (case (scores, st) of ((artist_score, title_score), (best_match, best_score)) \<Rightarrow>
        (let threshold = similarity_threshold cfg;
             combined = combined_score (artist_score, title_score)
         in if combined > best_score \<and> combined \<ge> threshold then (Some release_data, combined)
            else if flexible_artist_matching cfg
                    \<and> title_score \<ge> title_match_threshold cfg
                    \<and> artist_score < threshold
            then (if combined > best_score then (Some release_data, combined)
                  else (best_match, best_score))
            else (best_match, best_score)))"

definition release_step ::
  "unicode \<Rightarrow> config \<Rightarrow> str \<Rightarrow> str \<Rightarrow> release_entry \<Rightarrow> release option \<times> rat \<Rightarrow> release option \<times> rat" where
  "release_step U cfg artist album_title entry st =
     (case entry of
        NotARelease \<Rightarrow> st
      | ReleaseData release_data \<Rightarrow>
          if artistName release_data = [] \<or> releaseTitle release_data = [] then st
          else match_step cfg release_data (release_scores U artist album_title release_data) st)"

definition artist_step ::
  "unicode \<Rightarrow> config \<Rightarrow> str \<Rightarrow> str \<Rightarrow> artist_entry \<Rightarrow> release option \<times> rat \<Rightarrow> release option \<times> rat" where
  "artist_step U cfg artist album_title artist_data st =
     (case artist_data of
        NotAnArtist \<Rightarrow> st
      | ArtistData albums \<Rightarrow> fold (\<lambda>(album_key, entry). release_step U cfg artist album_title entry) albums st)"

definition find_rym_release :: "unicode \<Rightarrow> config \<Rightarrow> catalog \<Rightarrow> str \<Rightarrow> str \<Rightarrow> release option" where
  "find_rym_release U cfg rym_data artist album_title =
     (if rym_data = [] then None
      else fst (fold (\<lambda>(artist_key, artist_data). artist_step U cfg artist album_title artist_data)
                  rym_data (None, 0)))"

text \<open>
  The same scan over a plain list of releases with any scoring function, and the list of
  releases of a catalog that the nested loops score; \<open>find_rym_release_scan\<close> below shows
  that \<open>find_rym_release\<close> is this scan.
\<close>

definition scan_releases :: "config \<Rightarrow> ('r \<Rightarrow> rat \<times> rat) \<Rightarrow> 'r list \<Rightarrow> 'r option \<times> rat" where
  "scan_releases cfg score rs = fold (\<lambda>r. match_step cfg r (score r)) rs (None, 0)"

definition release_candidate :: "release_entry \<Rightarrow> release list" where
  "release_candidate entry =
     (case entry of
        NotARelease \<Rightarrow> []
      | ReleaseData r \<Rightarrow> if artistName r = [] \<or> releaseTitle r = [] then [] else [r])"

definition artist_candidates :: "artist_entry \<Rightarrow> release list" where
  "artist_candidates artist_data =
     (case artist_data of
        NotAnArtist \<Rightarrow> []
      | ArtistData albums \<Rightarrow> concat (map (\<lambda>(album_key, entry). release_candidate entry) albums))"

definition candidates :: "catalog \<Rightarrow> release list" where
  "candidates rym_data =
     concat (map (\<lambda>(artist_key, artist_data). artist_candidates artist_data) rym_data)"

section \<open>Well-formed taxonomies and the invariants of the index\<close>

text \<open>
  A well-formed forest: every node is a dict whose \<^verbatim>\<open>name\<close> is a genre name and
  whose children, when present, are a well-formed forest again. These are the documents on
  which \<^verbatim>\<open>_parse_tree\<close> does not raise.
\<close>

fun wf_tree :: "'g node_seq \<Rightarrow> bool"
and wf_nodes :: "'g node list \<Rightarrow> bool"
and wf_node :: "'g node \<Rightarrow> bool"
where
  "wf_tree NotIterable = False"
| "wf_tree (Nodes ns) = wf_nodes ns"
| "wf_nodes [] = True"
| "wf_nodes (n # ns) = (wf_node n \<and> wf_nodes ns)"
| "wf_node NonDict = False"
| "wf_node (Dict NoName children) = False"
| "wf_node (Dict Unhashable children) = False"
| "wf_node (Dict (Name genre_name) None) = True"
| "wf_node (Dict (Name genre_name) (Some cs)) = wf_tree cs"

text \<open>
  Every name on a stored ancestor path is a registered genre; and the genres with an entry in
  \<^verbatim>\<open>genre_to_parents\<close> are the registered ones.
\<close>

definition paths_registered :: "'g hierarchy \<Rightarrow> bool" where
  "paths_registered h \<longleftrightarrow>
     (\<forall>g paths p x. genre_to_parents h g = Some paths \<longrightarrow> p |\<in>| paths \<longrightarrow> x \<in> set p
        \<longrightarrow> x |\<in>| all_genres h)"

definition index_consistent :: "'g hierarchy \<Rightarrow> bool" where
  "index_consistent h \<longleftrightarrow> (\<forall>g. g |\<in>| all_genres h \<longleftrightarrow> genre_to_parents h g \<noteq> None)"

section \<open>Configuration defaults and test data\<close>

text \<open>
  The defaults of \<^verbatim>\<open>self.config.add\<close>, the taxonomy of the specification's scenario
  (Electronic, Ambient below it, Black Ambient below that, with Regional Music excluded) and a
  taxonomy whose second root has no \<^verbatim>\<open>name\<close>.
\<close>

definition default_config :: config where
  "default_config =
     \<lparr>similarity_threshold = 4 / 5, flexible_artist_matching = True,
      title_match_threshold = 19 / 20, use_hierarchy = True, max_groupings = 30\<rparr>"

definition scenario_forest :: "str node_seq" where
  "scenario_forest =
     Nodes [Dict (Name (ustr ''Electronic''))
              (Some (Nodes [Dict (Name (ustr ''Ambient''))
                              (Some (Nodes [Dict (Name (ustr ''Black Ambient'')) None]))]))]"

definition scenario_index :: "str hierarchy" where
  "scenario_index = snd (parse_tree scenario_forest [] (empty_index {|ustr ''Regional Music''|}))"

definition truncated_forest :: "str node_seq" where
  "truncated_forest = Nodes [Dict (Name (ustr ''Rock'')) None, Dict NoName None]"

text \<open>
  The release of the specification's matching scenario, and two releases with a scoring
  function that gives the scores of its flexible-matching scenario (artist 0.4 and title 0.97
  for the first, 0.6 and 0.7 for any other).
\<close>

definition scenario_release :: release where
  "scenario_release =
     \<lparr>artistName = ustr ''Alt Name'', releaseTitle = ustr ''Title'',
      genres = [], secondaryGenres = [], descriptors = []\<rparr>"

definition flexible_release :: release where
  "flexible_release =
     \<lparr>artistName = ustr ''Alias'', releaseTitle = ustr ''Same Title'',
      genres = [], secondaryGenres = [], descriptors = []\<rparr>"

definition other_release :: release where
  "other_release =
     \<lparr>artistName = ustr ''Someone'', releaseTitle = ustr ''Else'',
      genres = [], secondaryGenres = [], descriptors = []\<rparr>"

definition flexible_scenario_score :: "release \<Rightarrow> rat \<times> rat" where
  "flexible_scenario_score r = (if r = flexible_release then (2 / 5, 97 / 100) else (3 / 5, 7 / 10))"

section \<open>Properties of the genre hierarchy\<close>

lemma set_ancestor_paths: "p \<in> set (ancestor_paths parent_path) \<Longrightarrow> set p \<subseteq> set parent_path"
  by (auto simp: ancestor_paths_def dest: in_set_takeD)

lemma register_genre_all_genres:
  "all_genres (register_genre g parent_path h) = finsert g (all_genres h)"
  by (simp add: register_genre_def Let_def)

lemma register_genre_excluded:
  "excluded_genres (register_genre g parent_path h) = excluded_genres h"
  by (simp add: register_genre_def Let_def)

lemma register_genre_registered:
  assumes "paths_registered h" and "set parent_path \<subseteq> fset (all_genres h)"
  shows "paths_registered (register_genre g parent_path h)"
  using assms
  unfolding paths_registered_def register_genre_def Let_def
  by (auto simp: fset_of_list_elem split: option.splits if_splits dest!: set_ancestor_paths)

lemma register_genre_consistent:
  "index_consistent h \<Longrightarrow> index_consistent (register_genre g parent_path h)"
  unfolding index_consistent_def register_genre_def Let_def by auto

lemma parse_mono:
  "all_genres h |\<subseteq>| all_genres (snd (parse_tree t path h))"
  "all_genres h |\<subseteq>| all_genres (snd (parse_nodes ns path h))"
  "all_genres h |\<subseteq>| all_genres (snd (parse_node n path h))"
proof (induction t path h and ns path h and n path h rule: parse_tree_parse_nodes_parse_node.induct)
  case (4 n ns parent_path h)
  then show ?case
    by (cases "parse_node n parent_path h") (auto split: option.splits)
next
  case (8 genre_name children parent_path h)
  then show ?case
    by (auto simp: Let_def register_genre_all_genres split: option.splits)
qed simp_all

lemma parse_registered:
  "paths_registered h \<Longrightarrow> set path \<subseteq> fset (all_genres h) \<Longrightarrow> paths_registered (snd (parse_tree t path h))"
  "paths_registered h \<Longrightarrow> set path \<subseteq> fset (all_genres h) \<Longrightarrow> paths_registered (snd (parse_nodes ns path h))"
  "paths_registered h \<Longrightarrow> set path \<subseteq> fset (all_genres h) \<Longrightarrow> paths_registered (snd (parse_node n path h))"
proof (induction t path h and ns path h and n path h rule: parse_tree_parse_nodes_parse_node.induct)
  case (4 n ns parent_path h)
  obtain e h' where p: "parse_node n parent_path h = (e, h')"
    by (cases "parse_node n parent_path h")
  have r: "paths_registered h'" using 4 p by simp
  have "all_genres h |\<subseteq>| all_genres h'" using parse_mono(3) [of h n parent_path] p by simp
  then have s: "set parent_path \<subseteq> fset (all_genres h')" using 4(4) by auto
  show ?case
  proof (cases e)
    case None
    then show ?thesis using 4(2) [OF p [symmetric] _ r s] p by simp
  next
    case (Some a)
    then show ?thesis using r p by simp
  qed
next
  case (8 genre_name children parent_path h)
  let ?h' = "register_genre genre_name parent_path h"
  have r: "paths_registered ?h'" using 8 by (simp add: register_genre_registered)
  have s: "set (parent_path @ [genre_name]) \<subseteq> fset (all_genres ?h')"
    using 8(3) by (auto simp: register_genre_all_genres)
  show ?case
  proof (cases children)
    case None
    then show ?thesis using r by (simp add: Let_def)
  next
    case (Some cs)
    then show ?thesis using 8(1) [OF refl refl Some r s] by (simp add: Let_def)
  qed
qed simp_all

lemma parse_wf:
  "wf_tree t \<Longrightarrow> fst (parse_tree t path h) = None"
  "wf_nodes ns \<Longrightarrow> fst (parse_nodes ns path h) = None"
  "wf_node n \<Longrightarrow> fst (parse_node n path h) = None"
proof (induction t path h and ns path h and n path h rule: parse_tree_parse_nodes_parse_node.induct)
  case (4 n ns parent_path h)
  then show ?case
    by (cases "parse_node n parent_path h") (auto split: option.splits)
next
  case (8 genre_name children parent_path h)
  then show ?case
    by (cases children) (auto simp: Let_def)
qed simp_all

lemma parse_consistent:
  "index_consistent h \<Longrightarrow> index_consistent (snd (parse_tree t path h))"
  "index_consistent h \<Longrightarrow> index_consistent (snd (parse_nodes ns path h))"
  "index_consistent h \<Longrightarrow> index_consistent (snd (parse_node n path h))"
proof (induction t path h and ns path h and n path h rule: parse_tree_parse_nodes_parse_node.induct)
  case (4 n ns parent_path h)
  then show ?case
    by (cases "parse_node n parent_path h") (auto split: option.splits)
next
  case (8 genre_name children parent_path h)
  then show ?case
    by (cases children) (auto simp: Let_def register_genre_consistent)
qed simp_all

lemma parse_excluded:
  "excluded_genres (snd (parse_tree t path h)) = excluded_genres h"
  "excluded_genres (snd (parse_nodes ns path h)) = excluded_genres h"
  "excluded_genres (snd (parse_node n path h)) = excluded_genres h"
proof (induction t path h and ns path h and n path h rule: parse_tree_parse_nodes_parse_node.induct)
  case (4 n ns parent_path h)
  then show ?case
    by (cases "parse_node n parent_path h") (auto split: option.splits)
next
  case (8 genre_name children parent_path h)
  then show ?case
    by (cases children) (auto simp: Let_def register_genre_excluded)
qed simp_all

lemma new_hierarchy_cases:
  "new_hierarchy excluded f = Inr (empty_index excluded) \<or>
   (\<exists>t. f = Document t \<and> new_hierarchy excluded f = Inr (snd (parse_tree t [] (empty_index excluded))))"
  by (cases f) (auto simp: new_hierarchy_def load_hierarchy_def split: prod.splits)

lemma new_hierarchy_consistent:
  assumes "new_hierarchy excluded f = Inr h"
  shows "index_consistent h"
proof -
  have e: "index_consistent (empty_index excluded)"
    by (simp add: index_consistent_def empty_index_def)
  show ?thesis
    using new_hierarchy_cases [of excluded f] assms e parse_consistent(1) [OF e] by auto
qed

lemma new_hierarchy_registered:
  assumes "new_hierarchy excluded f = Inr h"
  shows "paths_registered h"
proof -
  have e: "paths_registered (empty_index excluded)"
    by (simp add: paths_registered_def empty_index_def)
  have "paths_registered (snd (parse_tree t [] (empty_index excluded)))" for t
    by (rule parse_registered(1) [OF e]) simp
  then show ?thesis
    using new_hierarchy_cases [of excluded f] assms e by auto
qed

lemma fmember_ffUnion_iff: "x |\<in>| ffUnion A \<longleftrightarrow> (\<exists>B. B |\<in>| A \<and> x |\<in>| B)"
  by (induction A) auto

lemma parents_step_fst:
  "x |\<in>| fst (parents_step h g acc) \<longleftrightarrow>
     x |\<in>| fst acc \<or> x |\<in>| get_all_parent_genres h g"
  by (cases acc) (auto simp: parents_step_def Let_def)

lemma parents_step_snd:
  "x |\<in>| snd (parents_step h g acc) \<longleftrightarrow>
     x |\<in>| snd acc \<or> (x = g \<and> get_all_parent_genres h g = {||})"
  by (cases acc) (auto simp: parents_step_def Let_def)

lemma fold_parents_step_fst:
  "x |\<in>| fst (fold (parents_step h) primary acc) \<longleftrightarrow>
     x |\<in>| fst acc \<or> (\<exists>g \<in> set primary. x |\<in>| get_all_parent_genres h g)"
proof (induction primary arbitrary: acc)
  case Nil
  then show ?case by simp
next
  case (Cons g gs)
  show ?case
    by (auto simp: Cons.IH parents_step_fst parents_step_snd)
qed

lemma fold_parents_step_snd:
  "x |\<in>| snd (fold (parents_step h) primary acc) \<longleftrightarrow>
     x |\<in>| snd acc \<or> (x \<in> set primary \<and> get_all_parent_genres h x = {||})"
proof (induction primary arbitrary: acc)
  case Nil
  then show ?case by simp
next
  case (Cons g gs)
  show ?case
    by (auto simp: Cons.IH parents_step_fst parents_step_snd)
qed

lemma grouping_set_iff:
  "x |\<in>| grouping_set h primary \<longleftrightarrow>
     x |\<notin>| excluded_genres h \<and>
     ((x \<in> set primary \<and> get_all_parent_genres h x = {||}) \<or>
      (x \<notin> set primary \<and> (\<exists>g \<in> set primary. x |\<in>| get_all_parent_genres h g)))"
proof -
  obtain ap tops where f: "fold (parents_step h) primary ({||}, {||}) = (ap, tops)"
    by (cases "fold (parents_step h) primary ({||}, {||})")
  have a: "x |\<in>| ap \<longleftrightarrow> (\<exists>g \<in> set primary. x |\<in>| get_all_parent_genres h g)"
    using fold_parents_step_fst [of x h primary "({||}, {||})"] f by simp
  have t: "x |\<in>| tops \<longleftrightarrow> (x \<in> set primary \<and> get_all_parent_genres h x = {||})"
    using fold_parents_step_snd [of x h primary "({||}, {||})"] f by simp
  show ?thesis
    unfolding grouping_set_def f by (auto simp: Let_def a t fset_of_list_elem)
qed

lemma get_all_parent_genres_iff:
  "x |\<in>| get_all_parent_genres h g \<longleftrightarrow>
     (\<exists>paths p. genre_to_parents h g = Some paths \<and> p |\<in>| paths \<and> x \<in> set p)"
  by (auto simp: get_all_parent_genres_def fmember_ffUnion_iff fset_of_list_elem split: option.splits)

lemma expand_single_eq:
  "expand_genres_hierarchically h [G] =
     (if G |\<in>| all_genres h
      then finsert G (get_all_parent_genres h G) |-| excluded_genres h
      else {|G|} |-| excluded_genres h)"
  by (auto simp: expand_genres_hierarchically_def expand_step_def Let_def)

lemma sorted_sorted_list_of_fset: "sorted (sorted_list_of_fset A)"
  by (simp add: sorted_list_of_fset.rep_eq)

lemma ustr_simps:
  "ustr ''Electronic'' = [69, 108, 101, 99, 116, 114, 111, 110, 105, 99]"
  "ustr ''Ambient'' = [65, 109, 98, 105, 101, 110, 116]"
  "ustr ''Black Ambient'' = [66, 108, 97, 99, 107, 32, 65, 109, 98, 105, 101, 110, 116]"
  "ustr ''Regional Music'' = [82, 101, 103, 105, 111, 110, 97, 108, 32, 77, 117, 115, 105, 99]"
  "ustr ''Rock'' = [82, 111, 99, 107]"
  "ustr ''Polka'' = [80, 111, 108, 107, 97]"
  by (simp_all add: ustr_def)

lemma scenario_index_eq:
  "scenario_index =
     \<lparr>genre_to_parents =
        [ustr ''Electronic'' \<mapsto> {||},
         ustr ''Ambient'' \<mapsto> {|[ustr ''Electronic'']|},
         ustr ''Black Ambient'' \<mapsto> {|[ustr ''Electronic''], [ustr ''Electronic'', ustr ''Ambient'']|}],
      all_genres = {|ustr ''Black Ambient'', ustr ''Ambient'', ustr ''Electronic''|},
      excluded_genres = {|ustr ''Regional Music''|}\<rparr>"
  by (simp add: scenario_index_def scenario_forest_def empty_index_def register_genre_def
      ancestor_paths_def Let_def ustr_simps upt_rec [of 0] fun_upd_twist) 

lemma new_scenario: "new_hierarchy {|ustr ''Regional Music''|} (Document scenario_forest) = Inr scenario_index"
  by (simp add: new_hierarchy_def load_hierarchy_def scenario_index_def split: prod.splits)

subsection \<open>Loading a taxonomy\<close>

lemma load_hierarchy_never_raises: "\<exists>h'. load_hierarchy f h = Inr h'"
  by (cases f) (auto simp: load_hierarchy_def split: prod.splits)

lemma new_hierarchy_empty_on_early_failure:
  assumes "f = FileNotFound \<or> f = Unreadable e \<or> f = NoHierarchyKey e
           \<or> f = Document NotIterable \<or> f = Document (Nodes (NonDict # ns))
           \<or> f = Document (Nodes (Dict NoName cs # ns))
           \<or> f = Document (Nodes (Dict Unhashable cs # ns))"
  shows "new_hierarchy excluded f = Inr (empty_index excluded)"
  using assms by (auto simp: new_hierarchy_def load_hierarchy_def)

text \<open>
  Claim C3 says that every malformed or missing taxonomy leaves an empty index and never
  raises. The second half holds (\<open>load_hierarchy_never_raises\<close>), and so does the first
  for a failure before the first node is registered
  (\<open>new_hierarchy_empty_on_early_failure\<close>). The first half fails for a document that
  breaks after its first node: the handler of \<^verbatim>\<open>load_hierarchy\<close> only prints, while the handler of
  \<^verbatim>\<open>load_excluded_genres\<close> resets its set. For the forest
  \<^verbatim>\<open>[{"name": "Rock"}, {"children": []}]\<close> the walk raises KeyError at the second
  root and the genre Rock stays registered.
\<close>

theorem truncated_taxonomy_leaves_partial_index:
  "\<exists>h. new_hierarchy {||} (Document truncated_forest) = Inr h
     \<and> fst (parse_tree truncated_forest [] (empty_index {||})) = Some KeyError
     \<and> all_genres h = {|ustr ''Rock''|}
     \<and> genre_to_parents h (ustr ''Rock'') = Some {||}"
  by (simp add: new_hierarchy_def load_hierarchy_def truncated_forest_def empty_index_def
      register_genre_def ancestor_paths_def Let_def split: prod.splits)

subsection \<open>Hierarchical expansion\<close>

text \<open>
  Claim C7. For a genre \<open>G\<close> known to the index, the expansion of \<open>[G]\<close> contains every
  name on a stored ancestor path of \<open>G\<close> that is not excluded, contains \<open>G\<close> exactly when
  \<open>G\<close> is not excluded, and contains no excluded name; for an unknown genre it is \<open>{G}\<close>
  when \<open>G\<close> is not excluded and empty otherwise.
\<close>

theorem expand_hierarchically_single:
  "(G |\<in>| all_genres h \<longrightarrow>
      (\<forall>paths p x. genre_to_parents h G = Some paths \<longrightarrow> p |\<in>| paths \<longrightarrow> x \<in> set p \<longrightarrow>
         x |\<notin>| excluded_genres h \<longrightarrow> x |\<in>| expand_genres_hierarchically h [G])
      \<and> (G |\<in>| expand_genres_hierarchically h [G] \<longleftrightarrow> G |\<notin>| excluded_genres h)
      \<and> (\<forall>x. x |\<in>| expand_genres_hierarchically h [G] \<longrightarrow> x |\<notin>| excluded_genres h))
   \<and> (G |\<notin>| all_genres h \<longrightarrow>
        expand_genres_hierarchically h [G] = (if G |\<in>| excluded_genres h then {||} else {|G|}))"
  by (auto simp: expand_single_eq get_all_parent_genres_iff)

theorem expand_hierarchically_single_witness:
  "ustr ''Black Ambient'' |\<in>| all_genres scenario_index
   \<and> genre_to_parents scenario_index (ustr ''Black Ambient'')
       = Some {|[ustr ''Electronic''], [ustr ''Electronic'', ustr ''Ambient'']|}
   \<and> ustr ''Ambient'' |\<notin>| excluded_genres scenario_index
   \<and> ustr ''Ambient'' |\<in>| expand_genres_hierarchically scenario_index [ustr ''Black Ambient'']
   \<and> ustr ''Black Ambient'' |\<in>| expand_genres_hierarchically scenario_index [ustr ''Black Ambient'']
   \<and> ustr ''Polka'' |\<notin>| all_genres scenario_index
   \<and> expand_genres_hierarchically scenario_index [ustr ''Polka''] = {|ustr ''Polka''|}"
proof -
  have k: "ustr ''Black Ambient'' |\<in>| all_genres scenario_index"
    by (simp add: scenario_index_eq)
  have p: "genre_to_parents scenario_index (ustr ''Black Ambient'')
       = Some {|[ustr ''Electronic''], [ustr ''Electronic'', ustr ''Ambient'']|}"
    by (simp add: scenario_index_eq ustr_simps)
  have x: "ustr ''Ambient'' |\<notin>| excluded_genres scenario_index"
    "ustr ''Black Ambient'' |\<notin>| excluded_genres scenario_index"
    "ustr ''Polka'' |\<notin>| excluded_genres scenario_index"
    by (simp_all add: scenario_index_eq ustr_simps)
  have u: "ustr ''Polka'' |\<notin>| all_genres scenario_index"
    by (simp add: scenario_index_eq ustr_simps)
  have m: "[ustr ''Electronic'', ustr ''Ambient''] |\<in>| {|[ustr ''Electronic''], [ustr ''Electronic'', ustr ''Ambient'']|}"
    "ustr ''Ambient'' \<in> set [ustr ''Electronic'', ustr ''Ambient'']"
    by simp_all
  show ?thesis
    using expand_hierarchically_single [of "ustr ''Black Ambient''" scenario_index]
      expand_hierarchically_single [of "ustr ''Polka''" scenario_index]
      k p x u m by metis
qed

subsection \<open>The invariant of the built index\<close>

text \<open>
  Claim C8. Building the index from a well-formed forest raises nothing, and afterwards every
  name on every stored ancestor path is a registered genre.
\<close>

theorem build_paths_registered:
  "wf_tree forest \<Longrightarrow>
     \<exists>h. new_hierarchy excluded (Document forest) = Inr h
       \<and> fst (parse_tree forest [] (empty_index excluded)) = None
       \<and> paths_registered h"
proof -
  assume w: "wf_tree forest"
  obtain e h where p: "parse_tree forest [] (empty_index excluded) = (e, h)"
    by (cases "parse_tree forest [] (empty_index excluded)")
  have n: "new_hierarchy excluded (Document forest) = Inr h"
    using p by (simp add: new_hierarchy_def load_hierarchy_def)
  have "e = None" using parse_wf(1) [OF w, of "[]" "empty_index excluded"] p by simp
  then show ?thesis using n p new_hierarchy_registered [OF n] by simp
qed

theorem build_paths_registered_witness:
  "wf_tree scenario_forest \<and> paths_registered scenario_index"
proof -
  have w: "wf_tree scenario_forest" by (simp add: scenario_forest_def)
  show ?thesis
    using build_paths_registered [OF w, of "{|ustr ''Regional Music''|}"] w new_scenario by simp
qed

subsection \<open>Parent genres\<close>

lemma grouping_scenario:
  "get_parent_genres cfg (Some scenario_index) [ustr ''Electronic''] =
     (if use_hierarchy cfg then [ustr ''Electronic''] else [])"
  by (simp add: get_parent_genres_def grouping_set_def parents_step_def get_all_parent_genres_def
      scenario_index_eq ustr_simps Let_def sorted_list_of_fset.rep_eq)

text \<open>
  Claim C2 says the grouping output never contains a genre of the input list. The source
  subtracts the input from the collected parents first and adds the input genres without
  parents afterwards ("including top-level genres with no parents"), so such a genre is in
  the output: Electronic, a root of the scenario taxonomy, is returned for the input
  \<open>[Electronic]\<close>.
\<close>

theorem grouping_keeps_top_level_input_counterexample:
  "ustr ''Electronic'' \<in> set [ustr ''Electronic'']
   \<and> ustr ''Electronic'' \<in> set (get_parent_genres default_config (Some scenario_index) [ustr ''Electronic''])"
  by (simp add: grouping_scenario default_config_def)

text \<open>
  Claim C2 as amended. An input genre with at least one parent is never in the grouping
  output; an input genre is in the set that is sorted and truncated exactly when it has no
  parents and is not excluded.
\<close>

theorem grouping_drops_input_with_parents:
  "G \<in> set primary \<Longrightarrow>
     (get_all_parent_genres h G \<noteq> {||} \<longrightarrow> G \<notin> set (get_parent_genres cfg (Some h) primary))
     \<and> (G |\<in>| grouping_set h primary \<longleftrightarrow>
          get_all_parent_genres h G = {||} \<and> G |\<notin>| excluded_genres h)"
proof -
  assume g: "G \<in> set primary"
  have m: "G |\<in>| grouping_set h primary \<longleftrightarrow>
          get_all_parent_genres h G = {||} \<and> G |\<notin>| excluded_genres h"
    using g by (auto simp: grouping_set_iff)
  have s: "set (get_parent_genres cfg (Some h) primary) \<subseteq> fset (grouping_set h primary)"
    by (auto simp: get_parent_genres_def Let_def dest: in_set_takeD)
  show ?thesis using m s by auto
qed

theorem grouping_drops_input_with_parents_witness:
  "ustr ''Ambient'' \<in> set [ustr ''Ambient'', ustr ''Electronic'']
   \<and> get_all_parent_genres scenario_index (ustr ''Ambient'') \<noteq> {||}
   \<and> ustr ''Ambient'' \<notin> set (get_parent_genres default_config (Some scenario_index)
                                 [ustr ''Ambient'', ustr ''Electronic''])"
proof -
  have g: "ustr ''Ambient'' \<in> set [ustr ''Ambient'', ustr ''Electronic'']" by simp
  have p: "get_all_parent_genres scenario_index (ustr ''Ambient'') \<noteq> {||}"
    by (simp add: get_all_parent_genres_def scenario_index_eq ustr_simps)
  show ?thesis
    using grouping_drops_input_with_parents [OF g, of scenario_index default_config] g p by simp
qed

text \<open>
  Claim C4 says the output has at most \<open>max_groupings\<close> entries also when that maximum is
  zero or negative. The source truncates only under the guard \<^verbatim>\<open>max_groupings > 0\<close>:
  with a maximum of 0 the one grouping of the input \<open>[Electronic]\<close> is returned.
\<close>

theorem grouping_unlimited_counterexample:
  "max_groupings (default_config\<lparr>max_groupings := 0\<rparr>) = 0
   \<and> length (get_parent_genres (default_config\<lparr>max_groupings := 0\<rparr>) (Some scenario_index)
        [ustr ''Electronic'']) = 1"
  by (simp add: grouping_scenario default_config_def)

text \<open>
  Claim C4 as amended. The output is always sorted; it has at most \<open>max_groupings\<close> entries
  when that maximum is positive; when the maximum is zero or negative the whole sorted list
  is returned.
\<close>

theorem grouping_sorted_and_limited:
  "sorted (get_parent_genres cfg genre_hierarchy primary)
   \<and> (0 < max_groupings cfg \<longrightarrow>
        int (length (get_parent_genres cfg genre_hierarchy primary)) \<le> max_groupings cfg)
   \<and> (max_groupings cfg \<le> 0 \<longrightarrow> use_hierarchy cfg \<longrightarrow> primary \<noteq> [] \<longrightarrow>
        (\<forall>h. genre_hierarchy = Some h \<longrightarrow>
           get_parent_genres cfg genre_hierarchy primary = sorted_list_of_fset (grouping_set h primary)))"
  by (auto simp: get_parent_genres_def Let_def sorted_sorted_list_of_fset
      split: option.splits)

theorem grouping_sorted_and_limited_witness:
  "0 < max_groupings (default_config\<lparr>max_groupings := 1\<rparr>)
   \<and> int (length (get_parent_genres (default_config\<lparr>max_groupings := 1\<rparr>) (Some scenario_index)
        [ustr ''Polka'', ustr ''Rock''])) \<le> 1
   \<and> max_groupings (default_config\<lparr>max_groupings := 0\<rparr>) \<le> 0
   \<and> get_parent_genres (default_config\<lparr>max_groupings := 0\<rparr>) (Some scenario_index)
        [ustr ''Polka'', ustr ''Rock'']
      = sorted_list_of_fset (grouping_set scenario_index [ustr ''Polka'', ustr ''Rock''])"
proof -
  have a: "0 < max_groupings (default_config\<lparr>max_groupings := 1\<rparr>)"
    and b: "max_groupings (default_config\<lparr>max_groupings := 0\<rparr>) \<le> 0"
    and c: "use_hierarchy (default_config\<lparr>max_groupings := 0\<rparr>)"
    and d: "[ustr ''Polka'', ustr ''Rock''] \<noteq> []"
    by (simp_all add: default_config_def)
  show ?thesis
    using grouping_sorted_and_limited [of "default_config\<lparr>max_groupings := 1\<rparr>" "Some scenario_index"
        "[ustr ''Polka'', ustr ''Rock'']"]
      grouping_sorted_and_limited [of "default_config\<lparr>max_groupings := 0\<rparr>" "Some scenario_index"
        "[ustr ''Polka'', ustr ''Rock'']"]
      a b c d by simp
qed

text \<open>
  Claim C10. An input genre that the built index does not know has no stored ancestors, so it
  counts as top-level: if it is not excluded it is in the sorted list of groupings, the output
  is that list cut to \<open>max_groupings\<close> entries (uncut when the maximum is not positive),
  and the genre is in the output whenever nothing is cut.
\<close>

theorem unknown_genre_is_top_level:
  assumes "new_hierarchy excluded f = Inr h"
    and "use_hierarchy cfg"
    and "G \<in> set primary"
    and "G |\<notin>| all_genres h"
    and "G |\<notin>| excluded_genres h"
  shows "get_all_parent_genres h G = {||}
    \<and> G \<in> set (sorted_list_of_fset (grouping_set h primary))
    \<and> get_parent_genres cfg (Some h) primary =
        (if 0 < max_groupings cfg
         then take (nat (max_groupings cfg)) (sorted_list_of_fset (grouping_set h primary))
         else sorted_list_of_fset (grouping_set h primary))
    \<and> (max_groupings cfg \<le> 0 \<or> int (fcard (grouping_set h primary)) \<le> max_groupings cfg
         \<longrightarrow> G \<in> set (get_parent_genres cfg (Some h) primary))"
proof -
  have "index_consistent h" using assms(1) by (rule new_hierarchy_consistent)
  then have n: "genre_to_parents h G = None"
    using assms(4) by (auto simp: index_consistent_def)
  then have e: "get_all_parent_genres h G = {||}"
    by (simp add: get_all_parent_genres_def)
  have m: "G |\<in>| grouping_set h primary"
    using e assms(3,5) by (simp add: grouping_set_iff)
  have ne: "primary \<noteq> []" using assms(3) by auto
  have l: "length (sorted_list_of_fset (grouping_set h primary)) = fcard (grouping_set h primary)"
    by (simp add: sorted_list_of_fset.rep_eq fcard.rep_eq)
  have o: "get_parent_genres cfg (Some h) primary =
        (if 0 < max_groupings cfg
         then take (nat (max_groupings cfg)) (sorted_list_of_fset (grouping_set h primary))
         else sorted_list_of_fset (grouping_set h primary))"
    using assms(2) ne by (simp add: get_parent_genres_def Let_def)
  have t: "G \<in> set (get_parent_genres cfg (Some h) primary)"
    if "max_groupings cfg \<le> 0 \<or> int (fcard (grouping_set h primary)) \<le> max_groupings cfg"
    using that m l unfolding o by auto
  show ?thesis using e m o t by simp
qed

theorem unknown_genre_is_top_level_witness:
  "new_hierarchy {|ustr ''Regional Music''|} (Document scenario_forest) = Inr scenario_index
   \<and> use_hierarchy default_config
   \<and> ustr ''Polka'' \<in> set [ustr ''Black Ambient'', ustr ''Polka'']
   \<and> ustr ''Polka'' |\<notin>| all_genres scenario_index
   \<and> ustr ''Polka'' |\<notin>| excluded_genres scenario_index
   \<and> ustr ''Polka'' \<in> set (sorted_list_of_fset
        (grouping_set scenario_index [ustr ''Black Ambient'', ustr ''Polka'']))"
proof -
  have a: "use_hierarchy default_config" by (simp add: default_config_def)
  have b: "ustr ''Polka'' \<in> set [ustr ''Black Ambient'', ustr ''Polka'']" by simp
  have c: "ustr ''Polka'' |\<notin>| all_genres scenario_index"
    by (simp add: scenario_index_eq ustr_simps)
  have d: "ustr ''Polka'' |\<notin>| excluded_genres scenario_index"
    by (simp add: scenario_index_eq ustr_simps)
  show ?thesis
    using unknown_genre_is_top_level [OF new_scenario a b c d] new_scenario a b c d by simp
qed

section \<open>Properties of the regular expressions\<close>

text \<open>
  A pattern with an item that must match a character never matches the empty string; all
  patterns of the plugin are of this kind.
\<close>

lemma re_match_consumes:
  assumes "re_match U pat prev s = Some n"
    and "\<exists>c. Chars c One \<in> set pat \<or> Chars c Plus \<in> set pat"
  shows "0 < n"
  using assms
proof (induction U pat prev s arbitrary: n rule: re_match.induct)
  case (8 U c items prev x xs)
  then show ?case by (auto split: if_splits option.splits)
next
  case (10 U c items prev x xs)
  then show ?case by (auto split: if_splits option.splits)
qed (auto split: if_splits)

lemma patterns_consume:
  "re_match U pat prev s = Some n \<Longrightarrow>
     pat \<in> {re_bracket_segment U, re_paren_segment U, re_bracket_group, re_paren_group,
            re_paren_segment_album U, re_bracket_segment_album U, re_ethiopic_colon,
            re_colon_spacing U, re_whitespace_run U, re_volume_number U, re_punctuation U}
     \<Longrightarrow> 0 < n"
  by (erule re_match_consumes)
     (auto simp: re_bracket_segment_def re_paren_segment_def re_bracket_group_def
        re_paren_group_def re_paren_segment_album_def re_bracket_segment_album_def
        re_ethiopic_colon_def re_colon_spacing_def re_whitespace_run_def
        re_volume_number_def re_punctuation_def lit_def)

section \<open>Properties of the longest-match search\<close>

lemma extend_left_step:
  "besti > alo \<and> bestj > blo \<and> a ! (besti - 1) = b ! (bestj - 1) \<Longrightarrow>
     extend_left a b alo blo (besti, bestj, bestsize)
       = extend_left a b alo blo (besti - 1, bestj - 1, bestsize + 1)"
  by (subst extend_left.simps) simp

lemma extend_left_stop:
  "\<not> (besti > alo \<and> bestj > blo \<and> a ! (besti - 1) = b ! (bestj - 1)) \<Longrightarrow>
     extend_left a b alo blo (besti, bestj, bestsize) = (besti, bestj, bestsize)"
  by (subst extend_left.simps) auto

lemma extend_right_step:
  "besti + bestsize < ahi \<and> bestj + bestsize < bhi
     \<and> a ! (besti + bestsize) = b ! (bestj + bestsize) \<Longrightarrow>
     extend_right a b ahi bhi (besti, bestj, bestsize)
       = extend_right a b ahi bhi (besti, bestj, bestsize + 1)"
  by (subst extend_right.simps) simp

lemma extend_right_stop:
  "\<not> (besti + bestsize < ahi \<and> bestj + bestsize < bhi
     \<and> a ! (besti + bestsize) = b ! (bestj + bestsize)) \<Longrightarrow>
     extend_right a b ahi bhi (besti, bestj, bestsize) = (besti, bestj, bestsize)"
  by (subst extend_right.simps) auto

lemma lens_ok_empty: "lens_ok blo bhi n Map.empty"
  by (simp add: lens_ok_def)

lemma best_ok_mono: "best_ok alo blo bhi row best \<Longrightarrow> row \<le> row' \<Longrightarrow> best_ok alo blo bhi row' best"
  by (auto simp: best_ok_def)

lemma j2lenget_bounds:
  assumes "lens_ok blo bhi n m" and "blo \<le> j"
  shows "j2lenget m j + 1 \<le> j + 1 - blo \<and> j2lenget m j \<le> n"
proof (cases "j = 0 \<or> m (j - 1) = None")
  case True
  then show ?thesis using assms(2) by (auto simp: j2lenget_def)
next
  case False
  then obtain v where v: "m (j - 1) = Some v" and j: "0 < j" by auto
  then have "blo \<le> j - 1" "v \<le> (j - 1) + 1 - blo" "v \<le> n"
    using assms(1) unfolding lens_ok_def by blast+
  then show ?thesis using v j by (simp add: j2lenget_def)
qed

lemma match_cell_ok:
  assumes "lens_ok blo bhi (i - alo) j2len" and "alo \<le> i" and "blo \<le> j" and "j < bhi"
    and "lens_ok blo bhi (i + 1 - alo) new" and "best_ok alo blo bhi (i + 1) best"
    and "match_cell i j2len j (new, best) = (new', best')"
  shows "lens_ok blo bhi (i + 1 - alo) new' \<and> best_ok alo blo bhi (i + 1) best'"
proof -
  let ?k = "j2lenget j2len j + 1"
  have k: "?k \<le> j + 1 - blo" "?k \<le> i + 1 - alo"
    using j2lenget_bounds [OF assms(1,3)] assms(2) by auto
  have n: "new' = new(j \<mapsto> ?k)"
    using assms(7) by (auto simp: match_cell_def Let_def split: prod.splits)
  have l: "lens_ok blo bhi (i + 1 - alo) new'"
    unfolding n using assms(3,4,5) k by (auto simp: lens_ok_def)
  obtain bi bj bs where b: "best = (bi, bj, bs)" by (cases best)
  have b': "best' = (if ?k > bs then (i + 1 - ?k, j + 1 - ?k, ?k) else (bi, bj, bs))"
    using assms(7) b by (auto simp: match_cell_def Let_def)
  have "best_ok alo blo bhi (i + 1) best'"
  proof (cases "?k > bs")
    case True
    have "alo \<le> i + 1 - ?k" "blo \<le> j + 1 - ?k" "i + 1 - ?k + ?k \<le> i + 1" "j + 1 - ?k + ?k \<le> bhi"
      using assms(2,3,4) k by arith+
    then show ?thesis unfolding b' using True by (simp add: best_ok_def)
  next
    case False
    then show ?thesis unfolding b' using assms(6) b by simp
  qed
  then show ?thesis using l by simp
qed

lemma scan_row_ok:
  assumes "lens_ok blo bhi (i - alo) j2len" and "alo \<le> i"
    and "lens_ok blo bhi (i + 1 - alo) new" and "best_ok alo blo bhi (i + 1) best"
    and "scan_row i j2len blo bhi js (new, best) = (new', best')"
  shows "lens_ok blo bhi (i + 1 - alo) new' \<and> best_ok alo blo bhi (i + 1) best'"
  using assms(3,4,5)
proof (induction js arbitrary: new best)
  case Nil
  then show ?case by simp
next
  case (Cons j js)
  show ?case
  proof (cases "j < blo \<or> j \<ge> bhi")
    case True
    then show ?thesis using Cons by (auto split: if_splits)
  next
    case False
    obtain n1 b1 where m: "match_cell i j2len j (new, best) = (n1, b1)"
      by (cases "match_cell i j2len j (new, best)")
    have ok: "lens_ok blo bhi (i + 1 - alo) n1 \<and> best_ok alo blo bhi (i + 1) b1"
      using match_cell_ok [OF assms(1,2) _ _ Cons.prems(1,2) m] False by simp
    have "scan_row i j2len blo bhi js (n1, b1) = (new', best')"
      using Cons.prems(3) False m by simp
    then show ?thesis using Cons.IH ok by blast
  qed
qed

lemma match_row_ok:
  assumes "lens_ok blo bhi (i - alo) j2len" and "alo \<le> i" and "best_ok alo blo bhi i best"
    and "match_row a b2j blo bhi i (j2len, best) = (new', best')"
  shows "lens_ok blo bhi (i + 1 - alo) new' \<and> best_ok alo blo bhi (i + 1) best'"
proof -
  have b: "best_ok alo blo bhi (i + 1) best" using assms(3) by (rule best_ok_mono) simp
  show ?thesis
    using scan_row_ok [OF assms(1,2) lens_ok_empty b] assms(4) by (simp add: match_row_def)
qed

lemma fold_match_row_ok:
  assumes "alo \<le> ahi"
    and "fold (match_row a b2j blo bhi) [alo..<ahi] (Map.empty, alo, blo, 0) = (j2len, best)"
  shows "lens_ok blo bhi (ahi - alo) j2len \<and> best_ok alo blo bhi ahi best"
  using assms
proof (induction ahi arbitrary: j2len best)
  case 0
  then show ?case by (auto simp: lens_ok_def best_ok_def)
next
  case (Suc ahi)
  show ?case
  proof (cases "alo = Suc ahi")
    case True
    then show ?thesis using Suc.prems by (auto simp: lens_ok_def best_ok_def)
  next
    case False
    then have le: "alo \<le> ahi" using Suc.prems(1) by simp
    obtain m0 b0 where f: "fold (match_row a b2j blo bhi) [alo..<ahi] (Map.empty, alo, blo, 0) = (m0, b0)"
      by (cases "fold (match_row a b2j blo bhi) [alo..<ahi] (Map.empty, alo, blo, 0)")
    have ok: "lens_ok blo bhi (ahi - alo) m0 \<and> best_ok alo blo bhi ahi b0"
      using Suc.IH [OF le f] .
    have "match_row a b2j blo bhi ahi (m0, b0) = (j2len, best)"
      using Suc.prems(2) le f by simp
    then have "lens_ok blo bhi (ahi + 1 - alo) j2len \<and> best_ok alo blo bhi (ahi + 1) best"
      using match_row_ok [of blo bhi ahi alo m0 b0 a b2j j2len best] ok le by simp
    then show ?thesis using le by (simp add: Suc_diff_le)
  qed
qed

lemma extend_left_ok:
  "best_ok alo blo bhi row best \<Longrightarrow> best_ok alo blo bhi row (extend_left a b alo blo best)"
proof (induction a b alo blo best rule: extend_left.induct)
  case (1 a b alo blo besti bestj bestsize)
  show ?case
  proof (cases "besti > alo \<and> bestj > blo \<and> a ! (besti - 1) = b ! (bestj - 1)")
    case True
    have "bestsize \<noteq> 0" using "1.prems" True by (cases "bestsize = 0") (simp_all add: best_ok_def)
    then have p: "besti + bestsize \<le> row" "bestj + bestsize \<le> bhi"
      using "1.prems" by (simp_all add: best_ok_def)
    have "alo \<le> besti - 1" "blo \<le> bestj - 1" "besti - 1 + (bestsize + 1) \<le> row"
      "bestj - 1 + (bestsize + 1) \<le> bhi"
      using p True by arith+
    then have "best_ok alo blo bhi row (besti - 1, bestj - 1, bestsize + 1)"
      by (simp add: best_ok_def)
    then have "best_ok alo blo bhi row (extend_left a b alo blo (besti - 1, bestj - 1, bestsize + 1))"
      using "1.IH" True by blast
    then show ?thesis by (simp only: extend_left_step [OF True])
  next
    case False
    show ?thesis using "1.prems" by (simp only: extend_left_stop [OF False])
  qed
qed

lemma extend_right_ok:
  "best_ok alo blo bhi ahi best \<Longrightarrow> best_ok alo blo bhi ahi (extend_right a b ahi bhi best)"
proof (induction a b ahi bhi best rule: extend_right.induct)
  case (1 a b ahi bhi besti bestj bestsize)
  show ?case
  proof (cases "besti + bestsize < ahi \<and> bestj + bestsize < bhi
         \<and> a ! (besti + bestsize) = b ! (bestj + bestsize)")
    case True
    have "best_ok alo blo bhi ahi (besti, bestj, bestsize + 1)"
      using "1.prems" True by (simp add: best_ok_def)
    then have "best_ok alo blo bhi ahi (extend_right a b ahi bhi (besti, bestj, bestsize + 1))"
      using "1.IH" True by blast
    then show ?thesis by (simp only: extend_right_step [OF True])
  next
    case False
    show ?thesis using "1.prems" by (simp only: extend_right_stop [OF False])
  qed
qed

lemma find_longest_match_ok:
  assumes "alo \<le> ahi"
  shows "best_ok alo blo bhi ahi (find_longest_match a b b2j alo ahi blo bhi)"
proof -
  obtain j2len best where f: "fold (match_row a b2j blo bhi) [alo..<ahi] (Map.empty, alo, blo, 0) = (j2len, best)"
    by (cases "fold (match_row a b2j blo bhi) [alo..<ahi] (Map.empty, alo, blo, 0)")
  have "best_ok alo blo bhi ahi best" using fold_match_row_ok [OF assms f] by simp
  then show ?thesis
    unfolding find_longest_match_def Let_def f snd_conv
    by (intro extend_right_ok extend_left_ok)
qed

lemma find_longest_match_empty:
  assumes "ahi \<le> alo"
  shows "find_longest_match a b b2j alo ahi blo bhi = (alo, blo, 0)"
  using assms by (simp add: find_longest_match_def extend_left_stop extend_right_stop)

lemma find_longest_match_bounds:
  assumes "find_longest_match a b b2j alo ahi blo bhi = (i, j, k)" and "0 < k"
  shows "alo \<le> i \<and> i + k \<le> ahi \<and> blo \<le> j \<and> j + k \<le> bhi"
proof (cases "alo \<le> ahi")
  case True
  then show ?thesis
    using find_longest_match_ok [OF True, of blo bhi a b b2j] assms by (simp add: best_ok_def)
next
  case False
  then show ?thesis using find_longest_match_empty [of ahi alo a b b2j blo bhi] assms by simp
qed

text \<open>With these bounds the loop of \<^verbatim>\<open>get_matching_blocks\<close> terminates.\<close>

termination blocks_loop
  apply (relation "measure (\<lambda>(a, b, b2j, queue, mb). sum_list (map range_weight queue))")
    apply simp
   apply (simp_all add: range_weight_def)
  subgoal for a b b2j alo ahi blo bhi x y xa ya
    using find_longest_match_bounds [of a b b2j alo ahi blo bhi x xa ya] by auto
  done

section \<open>Properties of the similarity ratio\<close>

lemma total_size_simps:
  "total_size [] = 0"
  "total_size ((i, j, k) # blocks) = k + total_size blocks"
  "total_size (xs @ ys) = total_size xs + total_size ys"
  by (simp_all add: total_size_def block_size_def)

lemma total_size_insort: "total_size (insort x xs) = block_size x + total_size xs"
  by (induction xs) (simp_all add: total_size_def)

lemma total_size_sort: "total_size (sort xs) = total_size xs"
  by (induction xs) (simp_all add: total_size_insort, simp_all add: total_size_def)

lemma collapse_step_total:
  assumes "collapse_step blk (cur, non_adjacent) = (cur', non_adjacent')"
  shows "block_size cur' + total_size non_adjacent'
           = block_size blk + block_size cur + total_size non_adjacent"
proof -
  obtain i2 j2 k2 where b: "blk = (i2, j2, k2)" by (cases blk)
  obtain i1 j1 k1 where c: "cur = (i1, j1, k1)" by (cases cur)
  show ?thesis
    using assms unfolding b c collapse_step_def
    by (auto simp: total_size_simps block_size_def split: if_splits)
qed

lemma fold_collapse_step_total:
  assumes "fold collapse_step blocks (cur, non_adjacent) = (cur', non_adjacent')"
  shows "block_size cur' + total_size non_adjacent'
           = total_size blocks + block_size cur + total_size non_adjacent"
  using assms
proof (induction blocks arbitrary: cur non_adjacent)
  case Nil
  then show ?case by (simp add: total_size_def)
next
  case (Cons blk blocks)
  obtain c1 n1 where s: "collapse_step blk (cur, non_adjacent) = (c1, n1)"
    by (cases "collapse_step blk (cur, non_adjacent)")
  have "fold collapse_step blocks (c1, n1) = (cur', non_adjacent')"
    using Cons.prems s by simp
  then have "block_size cur' + total_size non_adjacent'
           = total_size blocks + block_size c1 + total_size n1"
    by (rule Cons.IH)
  then show ?case using collapse_step_total [OF s] by (simp add: total_size_def)
qed

lemma matches_eq:
  "sum_list (map (\<lambda>(i, j, k). k) (get_matching_blocks a b))
     = total_size (blocks_loop a b (chain_b b) [(0, length a, 0, length b)] [])"
proof -
  let ?raw = "blocks_loop a b (chain_b b) [(0, length a, 0, length b)] []"
  obtain i1 j1 k1 non_adjacent where
    f: "fold collapse_step (sort ?raw) ((0, 0, 0), []) = ((i1, j1, k1), non_adjacent)"
    by (cases "fold collapse_step (sort ?raw) ((0, 0, 0), [])") auto
  have "block_size (i1, j1, k1) + total_size non_adjacent = total_size (sort ?raw)"
    using fold_collapse_step_total [OF f] by (simp add: total_size_def block_size_def)
  then have t: "k1 + total_size non_adjacent = total_size ?raw"
    by (simp add: total_size_sort block_size_def)
  have "(\<lambda>(i, j, k). k) = block_size" by (auto simp: block_size_def fun_eq_iff)
  then have "sum_list (map (\<lambda>(i, j, k). k) (get_matching_blocks a b))
      = total_size (get_matching_blocks a b)" by (simp add: total_size_def)
  also have "\<dots> = total_size non_adjacent + k1"
    unfolding get_matching_blocks_def Let_def f by (simp add: total_size_simps)
  finally show ?thesis using t by simp
qed

lemma blocks_loop_total:
  "total_size (blocks_loop a b b2j queue acc) \<le> total_size acc + a_span queue
   \<and> total_size (blocks_loop a b b2j queue acc) \<le> total_size acc + b_span queue"
proof (induction a b b2j queue acc rule: blocks_loop.induct)
  case (1 a b b2j matching_blocks)
  then show ?case by simp
next
  case (2 a b b2j alo ahi blo bhi queue matching_blocks)
  obtain i j k where f: "find_longest_match a b b2j alo ahi blo bhi = (i, j, k)"
    by (cases "find_longest_match a b b2j alo ahi blo bhi")
  show ?case
  proof (cases "k = 0")
    case True
    then have "\<not> k \<noteq> 0" by simp
    then show ?thesis using 2(2) [OF f [symmetric] refl] f True
      by (simp add: a_span_def b_span_def)
  next
    case False
    then have bd: "alo \<le> i \<and> i + k \<le> ahi \<and> blo \<le> j \<and> j + k \<le> bhi"
      using find_longest_match_bounds [OF f] by simp
    let ?q = "(if i + k < ahi \<and> j + k < bhi then [(i + k, ahi, j + k, bhi)] else [])
             @ (if alo < i \<and> blo < j then [(alo, i, blo, j)] else []) @ queue"
    have ih: "total_size (blocks_loop a b b2j ?q (matching_blocks @ [(i, j, k)]))
                \<le> total_size (matching_blocks @ [(i, j, k)]) + a_span ?q
          \<and> total_size (blocks_loop a b b2j ?q (matching_blocks @ [(i, j, k)]))
                \<le> total_size (matching_blocks @ [(i, j, k)]) + b_span ?q"
      using 2(1) [OF f [symmetric] refl False] .
    have sa: "k + a_span ?q \<le> a_span ((alo, ahi, blo, bhi) # queue)"
      using bd by (auto simp: a_span_def)
    have sb: "k + b_span ?q \<le> b_span ((alo, ahi, blo, bhi) # queue)"
      using bd by (auto simp: b_span_def)
    have e: "blocks_loop a b b2j ((alo, ahi, blo, bhi) # queue) matching_blocks
              = blocks_loop a b b2j ?q (matching_blocks @ [(i, j, k)])"
      using f False by simp
    show ?thesis unfolding e using ih sa sb by (simp add: total_size_simps)
  qed
qed

lemma matches_bound:
  "2 * sum_list (map (\<lambda>(i, j, k). k) (get_matching_blocks a b)) \<le> length a + length b"
  using blocks_loop_total [of a b "chain_b b" "[(0, length a, 0, length b)]" "[]"]
  unfolding matches_eq by (simp add: a_span_def b_span_def total_size_def)

lemma ratio_bounds: "0 \<le> ratio a b \<and> ratio a b \<le> 1"
proof -
  let ?m = "sum_list (map (\<lambda>(i, j, k). k) (get_matching_blocks a b))"
  have "(of_nat (2 * ?m) :: rat) \<le> of_nat (length a + length b)"
    using matches_bound [of a b] by (simp only: of_nat_le_iff)
  then show ?thesis
    unfolding ratio_def Let_def by (auto simp: divide_le_eq)
qed

lemma run_eq: "run P i = (if P i then prev_run P i + 1 else 0)"
  by (cases i) (simp_all add: prev_run_def)

lemma prev_run_Suc: "prev_run P (Suc i) = run P i"
  by (simp add: prev_run_def)

lemma fold_chain:
  fixes ps :: "(nat \<times> 'a) list"
  shows "fold (\<lambda>(i, elt) m. m(elt \<mapsto> (case m elt of None \<Rightarrow> [] | Some indices \<Rightarrow> indices) @ [i])) ps m x
     = (if map fst (filter (\<lambda>p. snd p = x) ps) = [] then m x
        else Some ((case m x of None \<Rightarrow> [] | Some indices \<Rightarrow> indices)
                     @ map fst (filter (\<lambda>p. snd p = x) ps)))"
proof -
  define step :: "nat \<times> 'a \<Rightarrow> ('a \<rightharpoonup> nat list) \<Rightarrow> ('a \<rightharpoonup> nat list)"
    where "step = (\<lambda>(i, elt) m. m(elt \<mapsto> (case m elt of None \<Rightarrow> [] | Some indices \<Rightarrow> indices) @ [i]))"
  have same: "e = x \<Longrightarrow> step (i, e) m x = Some ((case m x of None \<Rightarrow> [] | Some l \<Rightarrow> l) @ [i])"
    and other: "e \<noteq> x \<Longrightarrow> step (i, e) m x = m x" for i e m
    by (simp_all add: step_def)
  have "fold step ps m x
     = (if map fst (filter (\<lambda>p. snd p = x) ps) = [] then m x
        else Some ((case m x of None \<Rightarrow> [] | Some indices \<Rightarrow> indices)
                     @ map fst (filter (\<lambda>p. snd p = x) ps)))"
  proof (induction ps arbitrary: m)
    case Nil
    then show ?case by simp
  next
    case (Cons p ps)
    obtain i e where p: "p = (i, e)" by (cases p)
    have f: "fold step (p # ps) m x = fold step ps (step (i, e) m) x" by (simp add: p)
    show ?case
    proof (cases "e = x")
      case True
      show ?thesis unfolding f Cons.IH same [OF True] using True by (simp add: p)
    next
      case False
      show ?thesis unfolding f Cons.IH other [OF False] using False by (simp add: p)
    qed
  qed
  then show ?thesis unfolding step_def .
qed

lemma chain_b_Some:
  assumes "chain_b b x = Some js"
  shows "js = positions b x"
proof -
  let ?m = "fold (\<lambda>(i, elt) m. m(elt \<mapsto> (case m elt of None \<Rightarrow> [] | Some indices \<Rightarrow> indices) @ [i]))
                  (enumerate 0 b) Map.empty"
  have m: "?m x = (if positions b x = [] then None else Some (positions b x))"
    by (simp add: fold_chain positions_def)
  have "?m x = Some js"
    using assms unfolding chain_b_def Let_def by (auto split: if_splits option.splits)
  then show ?thesis using m by (auto split: if_splits)
qed

lemma set_positions: "set (positions b x) = {j. j < length b \<and> b ! j = x}"
  by (auto simp: positions_def in_set_enumerate_eq image_iff)

lemma sorted_positions: "sorted_wrt (<) (positions b x)"
proof -
  have "sorted_wrt (<) (map fst (enumerate 0 b))" by simp
  then have "sorted_wrt (\<lambda>p q. fst p < fst q) (enumerate 0 b)"
    by (simp only: sorted_wrt_map)
  then have "sorted_wrt (\<lambda>p q. fst p < fst q) (filter (\<lambda>p. snd p = x) (enumerate 0 b))"
    by (rule sorted_wrt_filter)
  then show ?thesis unfolding positions_def by (simp only: sorted_wrt_map)
qed

lemma row_positions:
  assumes "i < length b"
  shows "(case chain_b b (b ! i) of None \<Rightarrow> [] | Some js \<Rightarrow> js)
           = (if indexed b i then positions b (b ! i) else [])"
  using chain_b_Some [of b "b ! i"] by (auto simp: indexed_def split: option.splits)

lemma indexed_same: "b ! j = b ! i \<Longrightarrow> indexed b j = indexed b i"
  by (simp add: indexed_def)

lemma scan_row_full:
  "\<forall>j \<in> set js. j < bhi \<Longrightarrow> scan_row i j2len 0 bhi js st = fold (match_cell i j2len) js st"
  by (induction js arbitrary: st) simp_all

lemma fold_cells_map:
  "fst (fold (match_cell i j2len) js (new, best)) j
     = (if j \<in> set js then Some (j2lenget j2len j + 1) else new j)"
proof (induction js arbitrary: new best)
  case Nil
  then show ?case by simp
next
  case (Cons j' js)
  obtain n1 b1 where m: "match_cell i j2len j' (new, best) = (n1, b1)"
    by (cases "match_cell i j2len j' (new, best)")
  have n1: "n1 = new(j' \<mapsto> j2lenget j2len j' + 1)"
    using m by (auto simp: match_cell_def Let_def split: prod.splits)
  have f: "fst (fold (match_cell i j2len) (j' # js) (new, best)) j
             = fst (fold (match_cell i j2len) js (n1, b1)) j"
    by (simp add: m)
  show ?case unfolding f Cons.IH n1 by simp
qed

lemma fold_cells_best:
  assumes "sorted_wrt (<) js"
    and "\<forall>j \<in> set js. j2lenget j2len j + 1 \<le> run P j \<and> j2lenget j2len j + 1 \<le> run P i"
    and "j2lenget j2len i + 1 = run P i"
    and "\<forall>j' < i. run P j' \<le> bs"
    and "run P i \<le> bs \<or> i \<in> set js"
  shows "\<exists>d s. snd (fold (match_cell i j2len) js (new, (bi, bi, bs))) = (d, d, s)
           \<and> bs \<le> s \<and> run P i \<le> s"
  using assms(1,2,4,5)
proof (induction js arbitrary: new bi bs)
  case Nil
  then show ?case by simp
next
  case (Cons j js)
  let ?k = "j2lenget j2len j + 1"
  have sorted: "sorted_wrt (<) js" and gt: "\<forall>x \<in> set js. j < x" using Cons.prems(1) by simp_all
  have ks: "\<forall>j \<in> set js. j2lenget j2len j + 1 \<le> run P j \<and> j2lenget j2len j + 1 \<le> run P i"
    using Cons.prems(2) by simp
  have kj: "?k \<le> run P j" "?k \<le> run P i" using Cons.prems(2) by simp_all
  have cell: "match_cell i j2len j (new, (bi, bi, bs))
      = (new(j \<mapsto> ?k), if ?k > bs then (i + 1 - ?k, j + 1 - ?k, ?k) else (bi, bi, bs))"
    by (simp add: match_cell_def Let_def)
  consider (lt) "j < i" | (eq) "j = i" | (gt) "i < j" by arith
  then show ?case
  proof cases
    case lt
    then have "?k \<le> bs" using kj(1) Cons.prems(3) by (meson le_trans)
    then have c: "match_cell i j2len j (new, (bi, bi, bs)) = (new(j \<mapsto> ?k), (bi, bi, bs))"
      unfolding cell by simp
    have p: "run P i \<le> bs \<or> i \<in> set js" using Cons.prems(4) lt by auto
    show ?thesis using Cons.IH [OF sorted ks Cons.prems(3) p] by (simp add: c)
  next
    case eq
    show ?thesis
    proof (cases "?k > bs")
      case True
      have c: "match_cell i j2len j (new, (bi, bi, bs)) = (new(j \<mapsto> ?k), (i + 1 - ?k, i + 1 - ?k, ?k))"
        unfolding cell using True eq by simp
      have k: "?k = run P i" using assms(3) eq by simp
      have b: "\<forall>j' < i. run P j' \<le> ?k" using Cons.prems(3) True by (meson le_trans less_imp_le)
      have p: "run P i \<le> ?k \<or> i \<in> set js" using k by simp
      obtain d s where r: "snd (fold (match_cell i j2len) js (new(j \<mapsto> ?k), (i + 1 - ?k, i + 1 - ?k, ?k))) = (d, d, s)"
        "?k \<le> s" "run P i \<le> s"
        using Cons.IH [OF sorted ks b p] by blast
      show ?thesis using r True by (auto simp: c)
    next
      case False
      then have c: "match_cell i j2len j (new, (bi, bi, bs)) = (new(j \<mapsto> ?k), (bi, bi, bs))"
        unfolding cell by simp
      have "run P i \<le> bs" using False assms(3) eq by simp
      then have p: "run P i \<le> bs \<or> i \<in> set js" by simp
      show ?thesis using Cons.IH [OF sorted ks Cons.prems(3) p] by (simp add: c)
    qed
  next
    case gt
    then have "i \<notin> set (j # js)" using \<open>\<forall>x \<in> set js. j < x\<close> by auto
    then have r: "run P i \<le> bs" using Cons.prems(4) by simp
    then have "?k \<le> bs" using kj(2) by simp
    then have c: "match_cell i j2len j (new, (bi, bi, bs)) = (new(j \<mapsto> ?k), (bi, bi, bs))"
      unfolding cell by simp
    have p: "run P i \<le> bs \<or> i \<in> set js" using r by simp
    show ?thesis using Cons.IH [OF sorted ks Cons.prems(3) p] by (simp add: c)
  qed
qed

lemma match_row_diag:
  assumes "i < length a" and "diag_inv (indexed a) i st"
  shows "diag_inv (indexed a) (Suc i) (match_row a (chain_b a) 0 (length a) i st)"
proof -
  let ?P = "indexed a"
  obtain j2len bi bj bs where st: "st = (j2len, bi, bj, bs)" by (cases st)
  have inv: "\<And>j. j2lenget j2len j \<le> prev_run ?P j" "\<And>j. j2lenget j2len j \<le> prev_run ?P i"
    "j2lenget j2len i = prev_run ?P i" "bi = bj" "\<forall>j' < i. run ?P j' \<le> bs"
    using assms(2) unfolding st diag_inv_def by simp_all
  let ?js = "if ?P i then positions a (a ! i) else []"
  have row: "match_row a (chain_b a) 0 (length a) i st
               = fold (match_cell i j2len) ?js (Map.empty, bi, bi, bs)"
  proof -
    have "\<forall>j \<in> set ?js. j < length a" by (simp add: set_positions)
    then show ?thesis
      unfolding st match_row_def prod.case row_positions [OF assms(1)] inv(4)
      by (rule scan_row_full)
  qed
  show ?thesis
  proof (cases "?P i")
    case False
    then have r: "run ?P i = 0" by (simp add: run_eq)
    have "match_row a (chain_b a) 0 (length a) i st = (Map.empty, bi, bi, bs)"
      using False row by simp
    moreover have "\<forall>j' < Suc i. run ?P j' \<le> bs"
      using inv(5) r by (auto simp: less_Suc_eq)
    ultimately show ?thesis
      by (simp add: diag_inv_def j2lenget_def prev_run_Suc r)
  next
    case True
    then have js: "?js = positions a (a ! i)" by simp
    have mem: "j \<in> set ?js \<longleftrightarrow> j < length a \<and> a ! j = a ! i" for j
      by (simp add: js set_positions)
    have Pj: "?P j" if "j \<in> set ?js" for j
      using that True mem indexed_same [of a j i] by simp
    have ri: "run ?P i = prev_run ?P i + 1" using True by (simp add: run_eq)
    have k: "j2lenget j2len j + 1 \<le> run ?P j \<and> j2lenget j2len j + 1 \<le> run ?P i"
      if "j \<in> set ?js" for j
    proof -
      have "run ?P j = prev_run ?P j + 1" using Pj [OF that] by (simp add: run_eq)
      then show ?thesis using inv(1) [of j] inv(2) [of j] ri by simp
    qed
    have ki: "j2lenget j2len i + 1 = run ?P i" using inv(3) ri by simp
    have i_in: "i \<in> set ?js" using assms(1) True by (simp add: set_positions)
    obtain new' best' where res: "fold (match_cell i j2len) ?js (Map.empty, bi, bi, bs) = (new', best')"
      by (cases "fold (match_cell i j2len) ?js (Map.empty, bi, bi, bs)")
    have new': "new' j = (if j \<in> set ?js then Some (j2lenget j2len j + 1) else None)" for j
      using fold_cells_map [of i j2len ?js Map.empty "(bi, bi, bs)" j] res by simp
    have sorted: "sorted_wrt (<) ?js" using sorted_positions by (simp add: js)
    obtain d s where best': "best' = (d, d, s)" and s: "bs \<le> s" "run ?P i \<le> s"
      using fold_cells_best [of ?js j2len ?P i bs Map.empty bi, OF sorted _ ki inv(5)] k i_in res
      by auto
    have get: "j2lenget new' j \<le> prev_run ?P j \<and> j2lenget new' j \<le> run ?P i" for j
    proof (cases "j = 0 \<or> j - 1 \<notin> set ?js")
      case True
      then show ?thesis by (auto simp: j2lenget_def new')
    next
      case False
      then have j: "0 < j" "j - 1 \<in> set ?js" by auto
      then have "j2lenget new' j = j2lenget j2len (j - 1) + 1" by (simp add: j2lenget_def new')
      moreover have "prev_run ?P j = run ?P (j - 1)" using j(1) by (simp add: prev_run_def)
      ultimately show ?thesis using k [OF j(2)] by simp
    qed
    have diag: "j2lenget new' (Suc i) = run ?P i"
      using i_in ki by (simp add: j2lenget_def new')
    have below: "\<forall>j' < Suc i. run ?P j' \<le> s"
      using inv(5) s by (auto simp: less_Suc_eq intro: le_trans)
    show ?thesis
      unfolding row res best' diag_inv_def using get diag below by (simp add: prev_run_Suc)
  qed
qed

lemma fold_match_row_diag:
  assumes "m \<le> length a"
  shows "diag_inv (indexed a) m
           (fold (match_row a (chain_b a) 0 (length a)) [0..<m] (Map.empty, 0, 0, 0))"
  using assms
proof (induction m)
  case 0
  then show ?case by (simp add: diag_inv_def j2lenget_def prev_run_def)
next
  case (Suc m)
  then have "diag_inv (indexed a) m
           (fold (match_row a (chain_b a) 0 (length a)) [0..<m] (Map.empty, 0, 0, 0))" by simp
  then show ?case using match_row_diag [of m a] Suc.prems by simp
qed

lemma extend_left_diag: "extend_left a a 0 0 (d, d, s) = (0, 0, s + d)"
proof (induction d arbitrary: s)
  case 0
  then show ?case by (simp add: extend_left_stop)
next
  case (Suc d)
  have "extend_left a a 0 0 (Suc d, Suc d, s) = extend_left a a 0 0 (Suc d - 1, Suc d - 1, s + 1)"
    by (rule extend_left_step) simp
  then show ?case using Suc.IH [of "s + 1"] by simp
qed

lemma extend_right_diag: "s \<le> n \<Longrightarrow> extend_right a a n n (0, 0, s) = (0, 0, n)"
proof (induction "n - s" arbitrary: s)
  case 0
  then show ?case by (simp add: extend_right_stop)
next
  case (Suc m)
  then have lt: "s < n" by simp
  have "extend_right a a n n (0, 0, s) = extend_right a a n n (0, 0, s + 1)"
    by (rule extend_right_step) (simp add: lt)
  moreover have "extend_right a a n n (0, 0, s + 1) = (0, 0, n)"
    using Suc(1) [of "s + 1"] Suc(2) lt by simp
  ultimately show ?case by simp
qed

lemma find_longest_match_self:
  "find_longest_match a a (chain_b a) 0 (length a) 0 (length a) = (0, 0, length a)"
proof -
  let ?n = "length a"
  obtain j2len bi bj bs where
    f: "fold (match_row a (chain_b a) 0 ?n) [0..<?n] (Map.empty, 0, 0, 0) = (j2len, bi, bj, bs)"
    by (cases "fold (match_row a (chain_b a) 0 ?n) [0..<?n] (Map.empty, 0, 0, 0)") auto
  have "diag_inv (indexed a) ?n (j2len, bi, bj, bs)"
    using fold_match_row_diag [of ?n a] f by simp
  then have d: "bi = bj" by (simp add: diag_inv_def)
  have "best_ok 0 0 ?n ?n (bi, bj, bs)"
    using fold_match_row_ok [of 0 ?n a "chain_b a" 0 ?n j2len "(bi, bj, bs)"] f by simp
  then have le: "bs + bi \<le> ?n" by (simp add: best_ok_def add.commute)
  show ?thesis
    unfolding find_longest_match_def Let_def f snd_conv d [symmetric] extend_left_diag
    using le by (rule extend_right_diag)
qed

lemma ratio_self: "ratio a a = 1"
proof (cases "a = []")
  case True
  then show ?thesis by (simp add: ratio_def)
next
  case False
  then have n: "length a \<noteq> 0" by simp
  have "blocks_loop a a (chain_b a) [(0, length a, 0, length a)] [] = [(0, 0, length a)]"
    using n by (simp add: find_longest_match_self)
  then have "sum_list (map (\<lambda>(i, j, k). k) (get_matching_blocks a a)) = length a"
    unfolding matches_eq by (simp add: total_size_def block_size_def)
  then show ?thesis using n by (simp add: ratio_def)
qed

lemma similarity_tide_diet:
  "similarity ascii_unicode (ustr ''tide'') (ustr ''diet'') = 1 / 4"
  "similarity ascii_unicode (ustr ''diet'') (ustr ''tide'') = 1 / 2"
  by code_simp+

text \<open>
  Claim C5 says that the similarity is reflexive, symmetric and bounded. It is not symmetric:
  \<^verbatim>\<open>SequenceMatcher\<close> looks for the longest block of the first sequence and then
  recurses to its left and right, so exchanging the arguments can change which blocks are
  found. "tide" against "diet" gives 0.25, "diet" against "tide" gives 0.5.
\<close>

theorem similarity_symmetry_counterexample:
  "similarity ascii_unicode (ustr ''tide'') (ustr ''diet'')
     \<noteq> similarity ascii_unicode (ustr ''diet'') (ustr ''tide'')"
  by (simp add: similarity_tide_diet)

text \<open>
  Claim C5 as amended. For all strings and every Unicode table, the similarity of a string
  with itself is 1 and every similarity lies between 0 and 1.
\<close>

theorem similarity_reflexive_bounded:
  "similarity U a a = 1 \<and> 0 \<le> similarity U a b \<and> similarity U a b \<le> 1"
  by (simp add: similarity_def ratio_self ratio_bounds)

section \<open>Properties of the name variations\<close>

lemma set_first_occurrences: "set (first_occurrences xs) = set xs"
  by (induction xs rule: first_occurrences.induct) auto

lemma distinct_first_occurrences: "distinct (first_occurrences xs)"
  by (induction xs rule: first_occurrences.induct) (auto simp: set_first_occurrences)

lemma last_dropWhile: "dropWhile P xs \<noteq> [] \<Longrightarrow> last (dropWhile P xs) = last xs"
  by (induction xs) (auto split: if_splits)

lemma strip_stripped:
  assumes "strip U s \<noteq> []"
  shows "stripped U (strip U s)"
proof -
  let ?t = "dropWhile (isspace U) s"
  let ?r = "dropWhile (isspace U) (rev ?t)"
  have r: "?r \<noteq> []" using assms by (simp add: strip_def)
  have t: "?t \<noteq> []"
  proof
    assume e: "?t = []"
    have "?r = []" unfolding e by simp
    with r show False ..
  qed
  have "last (strip U s) = hd ?r" using r by (simp add: strip_def last_rev)
  then have l: "\<not> isspace U (last (strip U s))" using r hd_dropWhile [of "isspace U" "rev ?t"] by simp
  have "hd (strip U s) = last ?r" using r by (simp add: strip_def hd_rev)
  also have "\<dots> = last (rev ?t)" using r by (rule last_dropWhile)
  also have "\<dots> = hd ?t" using t by (simp add: last_rev)
  finally have "hd (strip U s) = hd ?t" .
  then have h: "\<not> isspace U (hd (strip U s))" using t hd_dropWhile [of "isspace U" s] by simp
  show ?thesis using assms h l by (simp add: stripped_def)
qed

lemma strip_of_stripped: "stripped U s \<Longrightarrow> strip U s = s"
proof -
  assume a: "stripped U s"
  have d: "dropWhile (isspace U) s = s"
    using a by (simp add: stripped_def dropWhile_eq_self_iff)
  have "dropWhile (isspace U) (rev s) = rev s"
    using a by (simp add: stripped_def dropWhile_eq_self_iff hd_rev)
  then show ?thesis using d by (simp add: strip_def)
qed

lemma fold_dedup_step:
  assumes "fset seen = set res"
  shows "fold (dedup_step U) vs (seen, res) =
     (seen |\<union>| fset_of_list (filter (\<lambda>v. v \<noteq> []) (map (strip U) vs)),
      res @ first_occurrences (filter (\<lambda>v. v \<notin> set res) (filter (\<lambda>v. v \<noteq> []) (map (strip U) vs))))"
  using assms
proof (induction vs arbitrary: seen res)
  case Nil
  then show ?case by simp
next
  case (Cons v vs)
  let ?c = "strip U v"
  show ?case
  proof (cases "?c \<noteq> [] \<and> ?c |\<notin>| seen")
    case True
    have s: "fset (finsert ?c seen) = set (res @ [?c])" using Cons.prems by simp
    have n: "?c \<notin> set res" using True Cons.prems by auto
    have f: "removeAll ?c (filter (\<lambda>x. x \<noteq> [] \<and> x \<notin> set res) ys)
        = filter (\<lambda>x. x \<noteq> [] \<and> x \<noteq> ?c \<and> x \<notin> set res) ys" for ys
      by (induction ys) auto
    have "fold (dedup_step U) (v # vs) (seen, res) = fold (dedup_step U) vs (finsert ?c seen, res @ [?c])"
      using True by (simp add: dedup_step_def Let_def)
    then show ?thesis
      unfolding Cons.IH [OF s] using True n by (simp add: f)
  next
    case False
    have st: "fold (dedup_step U) (v # vs) (seen, res) = fold (dedup_step U) vs (seen, res)"
      using False by (auto simp: dedup_step_def Let_def)
    show ?thesis
    proof (cases "?c = []")
      case True
      then show ?thesis unfolding st Cons.IH [OF Cons.prems] by simp
    next
      case c: False
      then have "?c \<in> set res" using False Cons.prems by auto
      then show ?thesis unfolding st Cons.IH [OF Cons.prems] using c Cons.prems by auto
    qed
  qed
qed

lemma clean_variations_eq:
  "clean_variations U vs = first_occurrences (filter (\<lambda>v. v \<noteq> []) (map (strip U) vs))"
  by (simp add: clean_variations_def fold_dedup_step)

lemma clean_variations_props:
  "distinct (clean_variations U vs)"
  "v \<in> set (clean_variations U vs) \<Longrightarrow> stripped U v"
  by (auto simp: clean_variations_eq distinct_first_occurrences set_first_occurrences
      intro: strip_stripped)

text \<open>
  Claim C9. For every name, both variation functions return a list without duplicates whose
  entries are non-empty after stripping and have no whitespace at either end, and the list
  is the list of first occurrences of the stripped, non-empty candidates in the order in
  which the function collected them.
\<close>

theorem name_variations_clean:
  "distinct (get_artist_variations U name) \<and> distinct (get_album_variations U name)
   \<and> (\<forall>v \<in> set (get_artist_variations U name) \<union> set (get_album_variations U name).
         strip U v \<noteq> [] \<and> stripped U v)
   \<and> get_artist_variations U name
       = first_occurrences (filter (\<lambda>v. v \<noteq> []) (map (strip U) (artist_variations_raw U name)))
   \<and> get_album_variations U name
       = first_occurrences (filter (\<lambda>v. v \<noteq> []) (map (strip U) (album_variations_raw U name)))"
proof -
  have "strip U v \<noteq> [] \<and> stripped U v" if "v \<in> set (clean_variations U vs)" for v vs
  proof -
    have s: "stripped U v" using that by (rule clean_variations_props(2))
    then show ?thesis using strip_of_stripped [OF s] by (simp add: stripped_def)
  qed
  then show ?thesis
    unfolding get_artist_variations_def get_album_variations_def
    by (auto simp: clean_variations_props(1) clean_variations_eq [symmetric])
qed

lemma artist_variations_scenario:
  "get_artist_variations ascii_unicode (ustr ''Artist [Alt Name]'')
     = [ustr ''Artist [Alt Name]'', ustr ''Artist'', ustr ''Alt Name'']"
  by code_simp

lemma album_variations_scenario:
  "get_album_variations ascii_unicode (ustr ''Title (Remaster)'')
     = [ustr ''Title (Remaster)'', ustr ''Title'', ustr ''Title Remaster'']"
  by code_simp

theorem name_variations_clean_witness:
  "ustr ''Alt Name'' \<in> set (get_artist_variations ascii_unicode (ustr ''Artist [Alt Name]''))
                        \<union> set (get_album_variations ascii_unicode (ustr ''Artist [Alt Name]''))
   \<and> strip ascii_unicode (ustr ''Alt Name'') \<noteq> []
   \<and> stripped ascii_unicode (ustr ''Alt Name'')"
proof -
  have m: "ustr ''Alt Name'' \<in> set (get_artist_variations ascii_unicode (ustr ''Artist [Alt Name]''))
                        \<union> set (get_album_variations ascii_unicode (ustr ''Artist [Alt Name]''))"
    by (simp add: artist_variations_scenario)
  show ?thesis
    using name_variations_clean [of ascii_unicode "ustr ''Artist [Alt Name]''"] m by blast
qed

section \<open>Properties of the release matcher\<close>

lemma fold_max:
  fixes f :: "'a \<Rightarrow> rat"
  shows "fold (\<lambda>x best. max best (f x)) xs b0 = Max (insert b0 (f ` set xs))"
proof (induction xs arbitrary: b0)
  case Nil
  then show ?case by simp
next
  case (Cons x xs)
  have "Max (insert (max b0 (f x)) (f ` set xs)) = Max (insert b0 (insert (f x) (f ` set xs)))"
    by (cases "f ` set xs = {}") (simp_all add: max.assoc)
  then show ?case by (simp add: Cons.IH)
qed

lemma Max_insert_Max:
  fixes b :: rat
  assumes "finite A" and "finite B"
  shows "Max (insert (Max (insert b A)) B) = Max (insert b (A \<union> B))"
proof (rule Max_eqI)
  let ?m = "Max (insert b A)" and ?M = "Max (insert b (A \<union> B))"
  have fin: "finite (insert b A)" "finite (insert b (A \<union> B))" using assms by simp_all
  have m_in: "?m \<in> insert b A" using fin(1) by (intro Max_in) simp_all
  have M_in: "?M \<in> insert b (A \<union> B)" using fin(2) by (intro Max_in) simp_all
  show "finite (insert ?m B)" using assms by simp
  show "y \<le> ?M" if "y \<in> insert ?m B" for y
  proof -
    have "y \<in> insert b (A \<union> B)" using that m_in by auto
    then show ?thesis using fin(2) by (rule Max_ge [rotated])
  qed
  show "?M \<in> insert ?m B"
  proof (cases "?M \<in> B")
    case True
    then show ?thesis by simp
  next
    case False
    then have "?M \<in> insert b A" using M_in by auto
    then have le: "?M \<le> ?m" using fin(1) by (rule Max_ge [rotated])
    have "?m \<in> insert b (A \<union> B)" using m_in by auto
    then have "?m \<le> ?M" using fin(2) by (rule Max_ge [rotated])
    then show ?thesis using le by simp
  qed
qed

lemma fold_fold_max:
  fixes g :: "'a \<Rightarrow> 'b \<Rightarrow> rat"
  shows "fold (\<lambda>x best. fold (\<lambda>y best'. max best' (g x y)) ys best) xs b0
           = Max (insert b0 {g x y | x y. x \<in> set xs \<and> y \<in> set ys})"
proof (induction xs arbitrary: b0)
  case Nil
  then show ?case by simp
next
  case (Cons x xs)
  let ?A = "g x ` set ys" and ?B = "{g x' y | x' y. x' \<in> set xs \<and> y \<in> set ys}"
  have "?B = (\<lambda>(x', y). g x' y) ` (set xs \<times> set ys)" by auto
  then have fin: "finite ?A" "finite ?B" by simp_all
  have split: "{g x' y | x' y. x' \<in> set (x # xs) \<and> y \<in> set ys} = ?A \<union> ?B" by auto
  have "fold (\<lambda>x best. fold (\<lambda>y best'. max best' (g x y)) ys best) (x # xs) b0
          = Max (insert (fold (\<lambda>y best'. max best' (g x y)) ys b0) ?B)"
    by (simp only: fold_simps Cons.IH)
  also have "\<dots> = Max (insert (Max (insert b0 ?A)) ?B)"
    by (simp only: fold_max)
  also have "\<dots> = Max (insert b0 (?A \<union> ?B))"
    using fin by (rule Max_insert_Max)
  finally show ?case unfolding split .
qed

lemma scenario_scores:
  "release_scores ascii_unicode (ustr ''Artist [Alt Name]'') (ustr ''Title (Remaster)'') scenario_release
     = (16 / 25, 1)"
  by code_simp

lemma self_similarity_scenario:
  "similarity ascii_unicode (ustr ''Alt Name'') (ustr ''Alt Name'') = 1"
  by code_simp

lemma record_artist_variations_scenario:
  "get_artist_variations ascii_unicode (artistName scenario_release) = [ustr ''Alt Name'']"
  by code_simp

text \<open>
  Claim C1 says the artist score is the maximum over the cross-product of the variations of
  the query artist and of the record's artist, and that the scenario scores 1.0. The source
  generates variations for the record's artist only ("Process RYM artist name to handle
  variations"); \<^verbatim>\<open>_get_artist_variations\<close> is never applied to the query. In the
  scenario "Alt Name" is a variation of both names and is identical to itself, yet the artist
  score is 0.64 (the ratio of "artist [alt name]" and "alt name") and the combined score is
  not 1.
\<close>

theorem artist_score_cross_product_counterexample:
  "ustr ''Alt Name'' \<in> set (get_artist_variations ascii_unicode (ustr ''Artist [Alt Name]''))
   \<and> ustr ''Alt Name'' \<in> set (get_artist_variations ascii_unicode (artistName scenario_release))
   \<and> similarity ascii_unicode (ustr ''Alt Name'') (ustr ''Alt Name'') = 1
   \<and> fst (release_scores ascii_unicode (ustr ''Artist [Alt Name]'') (ustr ''Title (Remaster)'')
            scenario_release) = 16 / 25
   \<and> combined_score (release_scores ascii_unicode (ustr ''Artist [Alt Name]'')
        (ustr ''Title (Remaster)'') scenario_release) \<noteq> 1"
  by (simp add: artist_variations_scenario record_artist_variations_scenario
      self_similarity_scenario scenario_scores combined_score_def)

text \<open>
  Claim C1 as amended. The artist score is the largest similarity between the lower-cased
  query artist and a variation of the record's artist name (0 if there is none); the title
  score is the largest similarity over the cross-product of the title variations; in the
  scenario the combined score is 0.82.
\<close>

theorem artist_score_record_variations_only:
  "fst (release_scores U artist album_title r)
     = Max (insert 0 ((\<lambda>v. similarity U (lower U artist) (lower U v))
                        ` set (get_artist_variations U (artistName r))))
   \<and> snd (release_scores U artist album_title r)
     = Max (insert 0 {similarity U (lower U x) (lower U y) | x y.
                        x \<in> set (get_album_variations U album_title)
                        \<and> y \<in> set (get_album_variations U (releaseTitle r))})
   \<and> combined_score (release_scores ascii_unicode (ustr ''Artist [Alt Name]'')
        (ustr ''Title (Remaster)'') scenario_release) = 41 / 50"
proof -
  have a: "fst (release_scores U artist album_title r)
     = Max (insert 0 ((\<lambda>v. similarity U (lower U artist) (lower U v))
                        ` set (get_artist_variations U (artistName r))))"
    unfolding release_scores_def best_artist_score_def fst_conv by (rule fold_max)
  have t: "snd (release_scores U artist album_title r)
     = Max (insert 0 {similarity U (lower U x) (lower U y) | x y.
                        x \<in> set (get_album_variations U album_title)
                        \<and> y \<in> set (get_album_variations U (releaseTitle r))})"
    unfolding release_scores_def best_title_score_def snd_conv by (rule fold_fold_max)
  have c: "combined_score (release_scores ascii_unicode (ustr ''Artist [Alt Name]'')
        (ustr ''Title (Remaster)'') scenario_release) = 41 / 50"
    by (simp add: scenario_scores combined_score_def)
  show ?thesis using a t c by simp
qed

lemma release_step_single:
  "release_step U cfg artist album_title entry st
     = fold (\<lambda>r. match_step cfg r (release_scores U artist album_title r)) (release_candidate entry) st"
  by (cases entry) (simp_all add: release_step_def release_candidate_def)

lemma fold_concat_map:
  "fold (\<lambda>p. fold M (g p)) xs st = fold M (concat (map g xs)) st"
  by (induction xs arbitrary: st) simp_all

lemma release_step_fold:
  "fold (\<lambda>(album_key, entry). release_step U cfg artist album_title entry) albums st
     = fold (\<lambda>r. match_step cfg r (release_scores U artist album_title r))
         (concat (map (\<lambda>(album_key, entry). release_candidate entry) albums)) st"
proof -
  let ?M = "\<lambda>r. match_step cfg r (release_scores U artist album_title r)"
  have e: "(\<lambda>(album_key, entry). release_step U cfg artist album_title entry)
          = (\<lambda>p. fold ?M ((\<lambda>(album_key, entry). release_candidate entry) p))"
    by (auto simp: fun_eq_iff release_step_single)
  show ?thesis unfolding e by (rule fold_concat_map)
qed

lemma artist_step_single:
  "artist_step U cfg artist album_title artist_data st
     = fold (\<lambda>r. match_step cfg r (release_scores U artist album_title r))
         (artist_candidates artist_data) st"
  by (cases artist_data) (simp_all add: artist_step_def artist_candidates_def release_step_fold)

lemma artist_step_fold:
  "fold (\<lambda>(artist_key, artist_data). artist_step U cfg artist album_title artist_data) rym_data st
     = fold (\<lambda>r. match_step cfg r (release_scores U artist album_title r)) (candidates rym_data) st"
proof -
  let ?M = "\<lambda>r. match_step cfg r (release_scores U artist album_title r)"
  have e: "(\<lambda>(artist_key, artist_data). artist_step U cfg artist album_title artist_data)
          = (\<lambda>p. fold ?M ((\<lambda>(artist_key, artist_data). artist_candidates artist_data) p))"
    by (auto simp: fun_eq_iff artist_step_single)
  show ?thesis unfolding candidates_def e by (rule fold_concat_map)
qed

lemma find_rym_release_scan:
  "find_rym_release U cfg rym_data artist album_title
     = fst (scan_releases cfg (release_scores U artist album_title) (candidates rym_data))"
  by (cases "rym_data = []")
     (simp_all add: find_rym_release_def scan_releases_def artist_step_fold candidates_def)

lemma match_step_adopt:
  assumes "flexible_artist_matching cfg" and "title_match_threshold cfg \<le> snd sc"
    and "fst sc < similarity_threshold cfg" and "best_score < combined_score sc"
  shows "match_step cfg c sc (best_match, best_score) = (Some c, combined_score sc)"
  using assms by (cases sc) (simp add: match_step_def Let_def combined_score_def)

lemma match_step_below:
  assumes "combined_score sc < limit" and "best_score < limit"
  shows "snd (match_step cfg r sc (best_match, best_score)) < limit"
  using assms by (cases sc) (simp add: match_step_def Let_def)

lemma match_step_keep:
  assumes "combined_score sc < best_score"
  shows "match_step cfg r sc (best_match, best_score) = (best_match, best_score)"
  using assms by (cases sc) (simp add: match_step_def Let_def)

lemma fold_match_step_below:
  assumes "\<forall>r \<in> set rs. combined_score (score r) < limit" and "snd st < limit"
  shows "snd (fold (\<lambda>r. match_step cfg r (score r)) rs st) < limit"
  using assms
proof (induction rs arbitrary: st)
  case Nil
  then show ?case by simp
next
  case (Cons r rs)
  obtain bm bs where st: "st = (bm, bs)" by (cases st)
  have "snd (match_step cfg r (score r) st) < limit"
    unfolding st using Cons.prems by (intro match_step_below) (simp_all add: st)
  then show ?case using Cons by simp
qed

lemma fold_match_step_keep:
  assumes "\<forall>r \<in> set rs. combined_score (score r) < best_score"
  shows "fold (\<lambda>r. match_step cfg r (score r)) rs (best_match, best_score) = (best_match, best_score)"
  using assms by (induction rs) (simp_all add: match_step_keep)

text \<open>
  Claim C6. With flexible matching enabled, a candidate whose title score reaches
  \<open>title_match_threshold\<close> and whose artist score is below the threshold replaces the best
  match whenever its combined score exceeds the best score so far, whether or not the
  combined score reaches the threshold; there is one best-score slot, so in a scan such a
  candidate is the result when its combined score is positive and exceeds the combined
  score of every other candidate; and \<open>find_rym_release\<close> is this scan over the catalog's
  releases. The witness is the scenario of the specification: thresholds 0.8 and 0.95,
  scores 0.4 and 0.97, combined 0.685.
\<close>

theorem flexible_match_same_slot:
  assumes "flexible_artist_matching cfg"
    and "title_match_threshold cfg \<le> snd (score c)"
    and "fst (score c) < similarity_threshold cfg"
  shows "(best_score < combined_score (score c) \<longrightarrow>
           match_step cfg c (score c) (best_match, best_score) = (Some c, combined_score (score c)))
    \<and> (0 < combined_score (score c)
         \<and> (\<forall>r \<in> set xs \<union> set ys. combined_score (score r) < combined_score (score c)) \<longrightarrow>
           scan_releases cfg score (xs @ c # ys) = (Some c, combined_score (score c)))
    \<and> find_rym_release U cfg rym_data artist album_title
        = fst (scan_releases cfg (release_scores U artist album_title) (candidates rym_data))"
proof -
  let ?C = "combined_score (score c)"
  have step: "match_step cfg c (score c) (bm, bs) = (Some c, ?C)" if "bs < ?C" for bm bs
    using assms that by (rule match_step_adopt)
  have scan: "scan_releases cfg score (xs @ c # ys) = (Some c, ?C)"
    if pos: "0 < ?C" and lt: "\<forall>r \<in> set xs \<union> set ys. combined_score (score r) < ?C"
  proof -
    obtain bm bs where f: "fold (\<lambda>r. match_step cfg r (score r)) xs (None, 0) = (bm, bs)"
      by (cases "fold (\<lambda>r. match_step cfg r (score r)) xs (None, 0)")
    have "snd (fold (\<lambda>r. match_step cfg r (score r)) xs (None, 0)) < ?C"
      using lt pos by (intro fold_match_step_below) simp_all
    then have "bs < ?C" using f by simp
    then have "match_step cfg c (score c) (bm, bs) = (Some c, ?C)" by (rule step)
    moreover have "fold (\<lambda>r. match_step cfg r (score r)) ys (Some c, ?C) = (Some c, ?C)"
      using lt by (intro fold_match_step_keep) simp
    ultimately show ?thesis by (simp add: scan_releases_def f)
  qed
  show ?thesis using step scan find_rym_release_scan by blast
qed

theorem flexible_match_same_slot_witness:
  "flexible_artist_matching default_config
   \<and> title_match_threshold default_config \<le> snd (flexible_scenario_score flexible_release)
   \<and> fst (flexible_scenario_score flexible_release) < similarity_threshold default_config
   \<and> combined_score (flexible_scenario_score flexible_release) = 137 / 200
   \<and> combined_score (flexible_scenario_score flexible_release) < similarity_threshold default_config
   \<and> combined_score (flexible_scenario_score other_release) < 137 / 200
   \<and> scan_releases default_config flexible_scenario_score
        [other_release, flexible_release, other_release] = (Some flexible_release, 137 / 200)"
proof -
  have ne: "other_release \<noteq> flexible_release"
    by (simp add: other_release_def flexible_release_def ustr_def)
  have a: "flexible_artist_matching default_config"
    and b: "title_match_threshold default_config \<le> snd (flexible_scenario_score flexible_release)"
    and c: "fst (flexible_scenario_score flexible_release) < similarity_threshold default_config"
    and d: "combined_score (flexible_scenario_score flexible_release) = 137 / 200"
    and e: "combined_score (flexible_scenario_score other_release) = 13 / 20"
    using ne by (simp_all add: default_config_def flexible_scenario_score_def combined_score_def)
  have f: "0 < combined_score (flexible_scenario_score flexible_release)
     \<and> (\<forall>r \<in> set [other_release] \<union> set [other_release].
           combined_score (flexible_scenario_score r)
             < combined_score (flexible_scenario_score flexible_release))"
    by (simp add: d e)
  show ?thesis
    using flexible_match_same_slot [where cfg = default_config and score = flexible_scenario_score
        and c = flexible_release and xs = "[other_release]" and ys = "[other_release]", OF a b c]
      f a b c d e
    by (simp add: default_config_def)
qed

end
